theory Spec2Isabelle
  imports Complex_Main "HOL-Library.Word" "HOL-Library.Log_Nat" "HOL-Library.Multiset"
begin

section \<open>Machine arithmetic of the C sources\<close>

text \<open>
  A C \<open>int\<close> is 32 bits wide. Its values are modelled as HOL integers, with the
  two's-complement wrap-around written out at every addition, subtraction and
  multiplication of the source: \<open>wrap32\<close> maps the mathematical result back
  into \<open>[-2^31, 2^31)\<close>. \<open>long long\<close> and \<open>uint64_t\<close> are treated the same way
  with \<open>wrap64\<close> and \<open>mod 2^64\<close>.
\<close>

definition INT_MAX :: int where
  "INT_MAX = 2147483647"

definition INT_MIN :: int where
  "INT_MIN = - 2147483648"

definition wrap32 :: "int \<Rightarrow> int" where
  "wrap32 i = (i + 2147483648) mod 4294967296 - 2147483648"

definition wrap64 :: "int \<Rightarrow> int" where
  "wrap64 i = (i + 9223372036854775808) mod 18446744073709551616 - 9223372036854775808"

definition add32 :: "int \<Rightarrow> int \<Rightarrow> int" where
  "add32 a b = wrap32 (a + b)"

definition sub32 :: "int \<Rightarrow> int \<Rightarrow> int" where
  "sub32 a b = wrap32 (a - b)"

definition mul32 :: "int \<Rightarrow> int \<Rightarrow> int" where
  "mul32 a b = wrap32 (a * b)"

text \<open>C's integer division truncates towards zero.\<close>

definition tdiv :: "int \<Rightarrow> int \<Rightarrow> int" where
  "tdiv a b = (if (a < 0) = (b < 0) then \<bar>a\<bar> div \<bar>b\<bar> else - (\<bar>a\<bar> div \<bar>b\<bar>))"

type_synonym byte = "8 word"

text \<open>
  Where the hardware answers with a trap or a stray access, the run ends with a
  fault, which is a value of the model: a division by zero, an access outside a
  buffer.
\<close>

datatype fault = DivByZero | OutOfBounds

definition bindf :: "fault + 'a \<Rightarrow> ('a \<Rightarrow> fault + 'b) \<Rightarrow> fault + 'b" where
  "bindf m k = (case m of Inl e \<Rightarrow> Inl e | Inr v \<Rightarrow> k v)"

text \<open>A counted \<open>for\<close> loop: the body runs once per index, left to right, and the
  first fault ends the run.\<close>

primrec for_loop :: "'i list \<Rightarrow> ('i \<Rightarrow> 's \<Rightarrow> fault + 's) \<Rightarrow> 's \<Rightarrow> fault + 's" where
  "for_loop [] body s = Inr s"
| "for_loop (i # rest) body s = bindf (body i s) (for_loop rest body)"

text \<open>
  \<open>malloc\<close> returns \<open>NULL\<close> or a block whose bytes are whatever the allocator left
  there. The caller of a model function passes the allocator's answer: \<open>None\<close>
  for \<open>NULL\<close>, \<open>Some junk\<close> for a block whose byte \<open>i\<close> initially reads \<open>junk i\<close>.
  A negative \<open>int\<close> size converts to a \<open>size_t\<close> beyond any allocatable block.
\<close>

type_synonym alloc = "(nat \<Rightarrow> byte) option"

definition malloc :: "alloc \<Rightarrow> int \<Rightarrow> byte list option" where
  "malloc a n = (case a of None \<Rightarrow> None
     | Some junk \<Rightarrow> if n < 0 then None else Some (map junk [0..<nat n]))"

section \<open>Double-precision arithmetic\<close>

text \<open>
  A C \<open>double\<close> is an IEEE 754 binary64 number. A finite double is modelled by the real
  number it denotes, and every operation of the source by the exact real operation
  followed by \<open>dbl\<close>, the rounding to the nearest number with a 53-bit significand,
  ties to the even significand. This is what the source computes when every operation
  is rounded once to binary64 (\<open>FLT_EVAL_METHOD\<close> 0, no fused multiply-add), as on
  x86-64 with SSE2. The exponent is not bounded here: the model agrees with binary64 on
  the normal range \<open>2^-1022 \<le> |x| < 2^1024\<close>, and the quantities of this program
  (byte values, times in seconds, cycle counts) stay far inside it.
\<close>

definition rnd_even :: "real \<Rightarrow> int" where
  "rnd_even x = (let f = \<lfloor>x\<rfloor>; r = x - of_int f in
     if r < 1/2 then f else if 1/2 < r then f + 1 else if even f then f else f + 1)"

text \<open>\<open>ilog2 x\<close> is the integer \<open>k\<close> with \<open>2^k \<le> x < 2^(k+1)\<close>, for \<open>x > 0\<close>.\<close>

definition ilog2 :: "real \<Rightarrow> int" where
  "ilog2 x = (if 1 \<le> x then bitlen \<lfloor>x\<rfloor> - 1
     else let k = bitlen \<lfloor>1 / x\<rfloor> in if x * 2 ^ nat k = 2 then 1 - k else - k)"

definition dbl :: "real \<Rightarrow> real" where
  "dbl x = (if x = 0 then 0 else
     let a = \<bar>x\<bar>; e = ilog2 a - 52
     in sgn x * (of_int (rnd_even (a / 2 powi e)) * 2 powi e))"

definition dadd :: "real \<Rightarrow> real \<Rightarrow> real" where
  "dadd a b = dbl (a + b)"

definition dsub :: "real \<Rightarrow> real \<Rightarrow> real" where
  "dsub a b = dbl (a - b)"

definition dmul :: "real \<Rightarrow> real \<Rightarrow> real" where
  "dmul a b = dbl (a * b)"

text \<open>Every division of the sources is guarded by a test that its divisor is positive.\<close>

definition ddiv :: "real \<Rightarrow> real \<Rightarrow> real" where
  "ddiv a b = dbl (a / b)"

text \<open>Conversions to \<open>double\<close>: exact for a byte and for an \<open>int\<close>, rounded for the
  64-bit types.\<close>

definition double_of_byte :: "byte \<Rightarrow> real" where
  "double_of_byte b = of_nat (unat b)"

definition double_of_int :: "int \<Rightarrow> real" where
  "double_of_int i = of_int i"

definition double_of_ll :: "int \<Rightarrow> real" where
  "double_of_ll i = dbl (of_int i)"

definition double_of_u64 :: "nat \<Rightarrow> real" where
  "double_of_u64 n = dbl (of_nat n)"

text \<open>
  Conversions from \<open>double\<close> truncate towards zero. For a value that the target type
  cannot hold the C standard defines no result; the conversion instructions of
  x86-64 do not trap and leave a value that depends on the instruction chosen.
  The conversion to \<open>uint64_t\<close> therefore takes that value as a parameter
  \<open>oor\<close> (the platform's answer for an out-of-range argument). The conversion to
  \<open>unsigned char\<close> goes through a 32-bit integer and keeps its low eight bits; its
  only use is on values in \<open>[0, 256)\<close> (lemma \<open>luminance_double_range\<close> below).
\<close>

definition trunc :: "real \<Rightarrow> int" where
  "trunc x = (if 0 \<le> x then \<lfloor>x\<rfloor> else \<lceil>x\<rceil>)"

definition u64_of_double :: "(real \<Rightarrow> nat) \<Rightarrow> real \<Rightarrow> nat" where
  "u64_of_double oor x =
     (if - 1 < x \<and> x < 18446744073709551616 then nat (trunc x) else oor x)"

definition byte_of_double :: "real \<Rightarrow> byte" where
  "byte_of_double x = word_of_int (trunc x)"

section \<open>Images (filters.h)\<close>

text \<open>
  \<open>Image\<close> of \<open>filters.h\<close>. The pixel buffer is \<open>None\<close> for a \<open>NULL\<close> data pointer.
  A \<open>NULL\<close> image pointer names no object; every filter returns at once on it and
  there is no state to model, so the filters below start from an existing object.
\<close>

record image =
  width :: int
  height :: int
  channels :: int
  data :: "byte list option"

definition load3 :: "byte list \<Rightarrow> int \<Rightarrow> fault + (byte \<times> byte \<times> byte)" where
  "load3 buf idx =
     (if 0 \<le> idx \<and> nat idx + 2 < length buf
      then Inr (buf ! nat idx, buf ! (nat idx + 1), buf ! (nat idx + 2))
      else Inl OutOfBounds)"

definition store3 :: "byte list \<Rightarrow> int \<Rightarrow> byte \<times> byte \<times> byte \<Rightarrow> fault + byte list" where
  "store3 buf idx v =
     (case v of (a, b, c) \<Rightarrow>
        if 0 \<le> idx \<and> nat idx + 2 < length buf
        then Inr (buf[nat idx := a, nat idx + 1 := b, nat idx + 2 := c])
        else Inl OutOfBounds)"

definition load1 :: "byte list \<Rightarrow> int \<Rightarrow> fault + byte" where
  "load1 buf idx =
     (if 0 \<le> idx \<and> nat idx < length buf then Inr (buf ! nat idx) else Inl OutOfBounds)"

definition store1 :: "byte list \<Rightarrow> int \<Rightarrow> byte \<Rightarrow> fault + byte list" where
  "store1 buf idx v =
     (if 0 \<le> idx \<and> nat idx < length buf then Inr (buf[nat idx := v]) else Inl OutOfBounds)"

text \<open>\<open>(row * w + col) * c\<close> in \<open>int\<close> arithmetic: the offset of a pixel's first byte.\<close>

definition pix_index :: "int \<Rightarrow> int \<Rightarrow> int \<Rightarrow> int \<Rightarrow> int" where
  "pix_index w c row col = mul32 (add32 (mul32 row w) col) c"

section \<open>Grayscale (filters.c, apply\_grayscale)\<close>

text \<open>The literals \<open>0.299\<close>, \<open>0.587\<close> and \<open>0.114\<close> denote the doubles nearest to them.\<close>

definition c299 :: real where
  "c299 = dbl (299 / 1000)"

definition c587 :: real where
  "c587 = dbl (587 / 1000)"

definition c114 :: real where
  "c114 = dbl (114 / 1000)"

text \<open>\<open>0.299 * r + 0.587 * g + 0.114 * b\<close>, evaluated left to right in \<open>double\<close>.\<close>

definition luminance_double :: "byte \<Rightarrow> byte \<Rightarrow> byte \<Rightarrow> real" where
  "luminance_double r g b =
     dadd (dadd (dmul c299 (double_of_byte r)) (dmul c587 (double_of_byte g)))
          (dmul c114 (double_of_byte b))"

text \<open>The cast \<open>(unsigned char)(...)\<close> of it.\<close>

definition luminance :: "byte \<Rightarrow> byte \<Rightarrow> byte \<Rightarrow> byte" where
  "luminance r g b = byte_of_double (luminance_double r g b)"

text \<open>Body of the loop of \<open>apply_grayscale\<close> for the pixel number \<open>i\<close>.\<close>

definition gray_pixel :: "int \<Rightarrow> int \<Rightarrow> byte list \<Rightarrow> fault + byte list" where
  "gray_pixel c i px =
     bindf (load3 px (mul32 i c)) (\<lambda>(r, g, b).
       let gray = luminance r g b
       in store3 px (mul32 i c) (gray, gray, gray))"

definition apply_grayscale :: "image \<Rightarrow> fault + image" where
  "apply_grayscale img =
     (case data img of
        None \<Rightarrow> Inr img
      | Some px \<Rightarrow>
          if channels img < 3 then Inr img
          else
            let pixels = mul32 (width img) (height img)
            in bindf (for_loop [0 .. pixels - 1] (gray_pixel (channels img)) px) (\<lambda>px'.
                 Inr (img\<lparr>data := Some px'\<rparr>)))"

section \<open>Box blur (filters.c, apply\_box\_blur)\<close>

text \<open>The accumulators of one window: \<open>rsum[0]\<close>, \<open>rsum[1]\<close>, \<open>rsum[2]\<close>, \<open>count\<close>.\<close>

type_synonym window = "int \<times> int \<times> int \<times> int"

definition window_step :: "byte list \<Rightarrow> (int \<Rightarrow> int) \<Rightarrow> int \<Rightarrow> window \<Rightarrow> fault + window" where
  "window_step buf index_of k acc =
     (case acc of (s0, s1, s2, n) \<Rightarrow>
        bindf (load3 buf (index_of k)) (\<lambda>(a, b, c).
          Inr (add32 s0 (uint a), add32 s1 (uint b), add32 s2 (uint c), add32 n 1)))"

text \<open>\<open>(unsigned char)(rsum[k] / count)\<close>: the division traps on a zero count, the cast
  keeps the low eight bits.\<close>

definition mean_byte :: "int \<Rightarrow> int \<Rightarrow> fault + byte" where
  "mean_byte s n = (if n = 0 then Inl DivByZero else Inr (word_of_int (tdiv s n)))"

definition window_mean :: "window \<Rightarrow> fault + (byte \<times> byte \<times> byte)" where
  "window_mean acc =
     (case acc of (s0, s1, s2, n) \<Rightarrow>
        bindf (mean_byte s0 n) (\<lambda>m0.
        bindf (mean_byte s1 n) (\<lambda>m1.
        bindf (mean_byte s2 n) (\<lambda>m2. Inr (m0, m1, m2)))))"

text \<open>The clamped window bounds of a coordinate \<open>x\<close> in \<open>[0, w)\<close>.\<close>

definition win_min :: "int \<Rightarrow> int \<Rightarrow> int" where
  "win_min x radius = (if sub32 x radius < 0 then 0 else sub32 x radius)"

definition win_max :: "int \<Rightarrow> int \<Rightarrow> int \<Rightarrow> int" where
  "win_max w x radius = (if add32 x radius \<ge> w then sub32 w 1 else add32 x radius)"

text \<open>The inner loop of the horizontal pass for the pixel \<open>(x, y)\<close>: the accumulators
  after the window \<open>xmin .. xmax\<close> of the row \<open>y\<close> of \<open>src\<close>.\<close>

definition hpass_window ::
    "int \<Rightarrow> int \<Rightarrow> int \<Rightarrow> byte list \<Rightarrow> int \<Rightarrow> int \<Rightarrow> fault + window" where
  "hpass_window w c radius src y x =
     for_loop [win_min x radius .. win_max w x radius]
       (window_step src (\<lambda>xx. pix_index w c y xx)) (0, 0, 0, 0)"

text \<open>Body of the horizontal pass for the pixel \<open>(x, y)\<close>: reads \<open>src\<close>, writes \<open>tmp\<close>.\<close>

definition hpass_pixel ::
    "int \<Rightarrow> int \<Rightarrow> int \<Rightarrow> byte list \<Rightarrow> int \<Rightarrow> int \<Rightarrow> byte list \<Rightarrow> fault + byte list" where
  "hpass_pixel w c radius src y x tmp =
     bindf (hpass_window w c radius src y x) (\<lambda>acc.
     bindf (window_mean acc) (\<lambda>m.
       store3 tmp (pix_index w c y x) m))"

text \<open>The inner loop of the vertical pass: the window \<open>ymin .. ymax\<close> of the column
  \<open>x\<close> of \<open>tmp\<close>.\<close>

definition vpass_window ::
    "int \<Rightarrow> int \<Rightarrow> int \<Rightarrow> int \<Rightarrow> byte list \<Rightarrow> int \<Rightarrow> int \<Rightarrow> fault + window" where
  "vpass_window w h c radius tmp y x =
     for_loop [win_min y radius .. win_max h y radius]
       (window_step tmp (\<lambda>yy. pix_index w c yy x)) (0, 0, 0, 0)"

text \<open>Body of the vertical pass for the pixel \<open>(x, y)\<close>: reads \<open>tmp\<close>, writes \<open>src\<close>.\<close>

definition vpass_pixel ::
    "int \<Rightarrow> int \<Rightarrow> int \<Rightarrow> int \<Rightarrow> byte list \<Rightarrow> int \<Rightarrow> int \<Rightarrow> byte list \<Rightarrow> fault + byte list" where
  "vpass_pixel w h c radius tmp y x src =
     bindf (vpass_window w h c radius tmp y x) (\<lambda>acc.
     bindf (window_mean acc) (\<lambda>m.
       store3 src (pix_index w c y x) m))"

definition apply_box_blur :: "alloc \<Rightarrow> image \<Rightarrow> int \<Rightarrow> fault + image" where
  "apply_box_blur a img radius =
     (case data img of
        None \<Rightarrow> Inr img
      | Some src \<Rightarrow>
          if channels img < 3 \<or> radius \<le> 0 then Inr img
          else
            let w = width img; h = height img; c = channels img;
                size = mul32 (mul32 w h) c
            in (case malloc a size of
                  None \<Rightarrow> Inr img
                | Some tmp0 \<Rightarrow>
                    bindf (for_loop [0 .. h - 1] (\<lambda>y.
                             for_loop [0 .. w - 1] (hpass_pixel w c radius src y)) tmp0) (\<lambda>tmp.
                    bindf (for_loop [0 .. h - 1] (\<lambda>y.
                             for_loop [0 .. w - 1] (vpass_pixel w h c radius tmp y)) src) (\<lambda>src'.
                      Inr (img\<lparr>data := Some src'\<rparr>)))))"

section \<open>Sobel edge detection (filters.c, apply\_sobel\_edge)\<close>

text \<open>The kernels \<open>gx\<close> and \<open>gy\<close>, indexed \<open>[ky + 1][kx + 1]\<close>.\<close>

definition sobel_gx :: "int list list" where
  "sobel_gx = [[-1, 0, 1], [-2, 0, 2], [-1, 0, 1]]"

definition sobel_gy :: "int list list" where
  "sobel_gy = [[-1, -2, -1], [0, 0, 0], [1, 2, 1]]"

text \<open>First loop: the luminance of pixel \<open>i\<close> goes to \<open>gray[i]\<close>.\<close>

definition gray_fill :: "int \<Rightarrow> byte list \<Rightarrow> int \<Rightarrow> byte list \<Rightarrow> fault + byte list" where
  "gray_fill c px i gray =
     bindf (load3 px (mul32 i c)) (\<lambda>(r, g, b).
       let v = luminance r g b
       in store1 gray i v)"

text \<open>One tap of the two convolutions: the accumulators are \<open>sumx\<close> and \<open>sumy\<close>.\<close>

definition sobel_tap ::
    "int \<Rightarrow> byte list \<Rightarrow> int \<Rightarrow> int \<Rightarrow> int \<Rightarrow> int \<Rightarrow> int \<times> int \<Rightarrow> fault + int \<times> int" where
  "sobel_tap w gray x y ky kx acc =
     (case acc of (sumx, sumy) \<Rightarrow>
        let px = add32 x kx; py = add32 y ky; idx = add32 (mul32 py w) px
        in bindf (load1 gray idx) (\<lambda>v.
             let val = uint v
             in Inr (add32 sumx (mul32 (sobel_gx ! nat (ky + 1) ! nat (kx + 1)) val),
                     add32 sumy (mul32 (sobel_gy ! nat (ky + 1) ! nat (kx + 1)) val))))"

text \<open>
  The largest \<open>k\<close> with \<open>k * k \<le> n\<close>. For a non-negative \<open>int\<close> \<open>n\<close> this is the value
  of \<open>(int)sqrt((double)n)\<close>: the conversion of \<open>n\<close> is exact, the square root is
  rounded correctly, and the rounding cannot reach the next integer (lemma
  \<open>floor_sqrt_is_double_sqrt\<close> below).
\<close>

primrec sqrt_search :: "nat \<Rightarrow> nat \<Rightarrow> nat" where
  "sqrt_search n 0 = 0"
| "sqrt_search n (Suc k) = (if Suc k * Suc k \<le> n then Suc k else sqrt_search n k)"

definition floor_sqrt :: "int \<Rightarrow> int" where
  "floor_sqrt n = int (sqrt_search (nat n) (nat n))"

text \<open>
  \<open>mag = (int)sqrt((double)(sumx * sumx + sumy * sumy))\<close>, the two clamps and the cast
  to a byte. A negative argument (possible only after an \<open>int\<close> overflow) makes \<open>sqrt\<close>
  return a NaN, which x86-64 converts to the least \<open>int\<close>.
\<close>

definition sobel_magnitude :: "int \<Rightarrow> int \<Rightarrow> byte" where
  "sobel_magnitude sumx sumy =
     (let s = add32 (mul32 sumx sumx) (mul32 sumy sumy);
          mag = (if s < 0 then INT_MIN else floor_sqrt s);
          mag1 = (if mag > 255 then 255 else mag);
          mag2 = (if mag1 < 0 then 0 else mag1)
      in word_of_int mag2)"

text \<open>Body of the convolution loops for the interior pixel \<open>(x, y)\<close>: writes \<open>out\<close>.\<close>

definition sobel_pixel :: "int \<Rightarrow> byte list \<Rightarrow> int \<Rightarrow> int \<Rightarrow> byte list \<Rightarrow> fault + byte list" where
  "sobel_pixel w gray y x out =
     bindf (for_loop [-1 .. 1] (\<lambda>ky. for_loop [-1 .. 1] (sobel_tap w gray x y ky)) (0, 0))
       (\<lambda>(sumx, sumy).
          store1 out (add32 (mul32 y w) x) (sobel_magnitude sumx sumy))"

text \<open>Last loop: \<open>out[i]\<close> goes to the three channels of pixel \<open>i\<close>.\<close>

definition copy_back :: "int \<Rightarrow> byte list \<Rightarrow> int \<Rightarrow> byte list \<Rightarrow> fault + byte list" where
  "copy_back c out i px =
     bindf (load1 out i) (\<lambda>e. store3 px (mul32 i c) (e, e, e))"

text \<open>\<open>apply_sobel_edge\<close>; \<open>ag\<close> and \<open>ao\<close> are the allocator's answers for \<open>gray\<close> and
  \<open>out\<close>.\<close>

definition apply_sobel_edge :: "alloc \<Rightarrow> alloc \<Rightarrow> image \<Rightarrow> fault + image" where
  "apply_sobel_edge ag ao img =
     (case data img of
        None \<Rightarrow> Inr img
      | Some px \<Rightarrow>
          if channels img < 3 then Inr img
          else
            let w = width img; h = height img; c = channels img;
                pixels = mul32 w h
            in (case malloc ag pixels of
                  None \<Rightarrow> Inr img
                | Some gray0 \<Rightarrow>
                    bindf (for_loop [0 .. pixels - 1] (gray_fill c px) gray0) (\<lambda>gray.
                      (case malloc ao pixels of
                         None \<Rightarrow> Inr img
                       | Some out0 \<Rightarrow>
                           bindf (for_loop [1 .. sub32 h 1 - 1] (\<lambda>y.
                                    for_loop [1 .. sub32 w 1 - 1] (sobel_pixel w gray y)) out0)
                             (\<lambda>out.
                           bindf (for_loop [0 .. pixels - 1] (copy_back c out) px) (\<lambda>px'.
                             Inr (img\<lparr>data := Some px'\<rparr>)))))))"

section \<open>Run metrics (serial.c, parallel.c)\<close>

text \<open>
  \<open>Metrics\<close> of \<open>serial.c\<close>, and \<open>Metrics\<close> of \<open>parallel.c\<close>, which has the same
  fields and four more.
\<close>

record base_metrics =
  images_processed :: int
  total_pixels :: int
  wall_time_sec :: real
  cpu_user_time_sec :: real
  cpu_system_time_sec :: real
  avg_time_per_image_ms :: real
  avg_time_per_pixel_ns :: real
  cpu_cycles :: nat
  cycles_per_image :: real
  cycles_per_pixel :: real
  max_width :: int
  max_height :: int

record metrics = base_metrics +
  estimated_total_cycles_all_threads :: nat
  estimated_cycles_per_image_all_threads :: real
  estimated_cycles_per_pixel_all_threads :: real
  threads_used :: int

text \<open>\<open>memset(metrics, 0, sizeof(*metrics))\<close>.\<close>

definition zero_base_metrics :: base_metrics where
  "zero_base_metrics =
     \<lparr>images_processed = 0, total_pixels = 0, wall_time_sec = 0, cpu_user_time_sec = 0,
      cpu_system_time_sec = 0, avg_time_per_image_ms = 0, avg_time_per_pixel_ns = 0,
      cpu_cycles = 0, cycles_per_image = 0, cycles_per_pixel = 0,
      max_width = 0, max_height = 0\<rparr>"

definition zero_metrics :: metrics where
  "zero_metrics =
     \<lparr>images_processed = 0, total_pixels = 0, wall_time_sec = 0, cpu_user_time_sec = 0,
      cpu_system_time_sec = 0, avg_time_per_image_ms = 0, avg_time_per_pixel_ns = 0,
      cpu_cycles = 0, cycles_per_image = 0, cycles_per_pixel = 0,
      max_width = 0, max_height = 0,
      estimated_total_cycles_all_threads = 0, estimated_cycles_per_image_all_threads = 0,
      estimated_cycles_per_pixel_all_threads = 0, threads_used = 0\<rparr>"

text \<open>
  The environment of a run. The samples of \<open>timer.c\<close> taken before and after the
  work: \<open>wall_time\<close>, \<open>get_cpu_times\<close> and \<open>read_tsc\<close>.
\<close>

record clock =
  t_start :: real
  t_end :: real
  user_before :: real
  user_after :: real
  sys_before :: real
  sys_after :: real
  c_start :: nat
  c_end :: nat

text \<open>
  A directory as the harness sees it: \<open>None\<close> when \<open>opendir\<close> fails, otherwise the
  entries that pass \<open>is_image_file\<close>, in \<open>readdir\<close> order, each with the answer of
  \<open>load_image\<close> for it: \<open>None\<close> for a failed load, the width and height of the image
  otherwise. The pixel work on a loaded image and the outcome of saving it do not
  feed any counter.
\<close>

type_synonym load_result = "(int \<times> int) option"

type_synonym directory = "load_result list option"

text \<open>The uint64 difference \<open>c_end - c_start\<close>.\<close>

definition tsc_delta :: "clock \<Rightarrow> nat" where
  "tsc_delta k = nat ((int (c_end k) - int (c_start k)) mod 18446744073709551616)"

text \<open>The body of the \<open>while\<close> loop of \<open>process_directory_serial\<close> for one entry.\<close>

definition serial_file :: "load_result \<Rightarrow> base_metrics \<Rightarrow> base_metrics" where
  "serial_file r m =
     (case r of
        None \<Rightarrow> m
      | Some (w, h) \<Rightarrow>
          let pixels = wrap64 (w * h);
              m1 = m\<lparr>images_processed := add32 (images_processed m) 1\<rparr>;
              m2 = m1\<lparr>total_pixels := wrap64 (total_pixels m1 + pixels)\<rparr>;
              m3 = (if w > max_width m2 then m2\<lparr>max_width := w\<rparr> else m2)
          in (if h > max_height m3 then m3\<lparr>max_height := h\<rparr> else m3))"

text \<open>The derived rates, the same statements in both programs.\<close>

definition derive_rates :: "'a base_metrics_scheme \<Rightarrow> 'a base_metrics_scheme" where
  "derive_rates m =
     (let m1 = (if images_processed m > 0
                then m\<lparr>avg_time_per_image_ms :=
                         ddiv (dmul (wall_time_sec m) 1000) (double_of_int (images_processed m)),
                       cycles_per_image :=
                         ddiv (double_of_u64 (cpu_cycles m)) (double_of_int (images_processed m))\<rparr>
                else m\<lparr>avg_time_per_image_ms := 0, cycles_per_image := 0\<rparr>)
      in (if total_pixels m1 > 0
          then m1\<lparr>avg_time_per_pixel_ns :=
                    ddiv (dmul (wall_time_sec m1) 1000000000) (double_of_ll (total_pixels m1)),
                  cycles_per_pixel :=
                    ddiv (double_of_u64 (cpu_cycles m1)) (double_of_ll (total_pixels m1))\<rparr>
          else m1\<lparr>avg_time_per_pixel_ns := 0, cycles_per_pixel := 0\<rparr>))"

text \<open>Storing the four deltas of the samples.\<close>

definition store_deltas :: "clock \<Rightarrow> 'a base_metrics_scheme \<Rightarrow> 'a base_metrics_scheme" where
  "store_deltas k m =
     m\<lparr>wall_time_sec := dsub (t_end k) (t_start k),
       cpu_user_time_sec := dsub (user_after k) (user_before k),
       cpu_system_time_sec := dsub (sys_after k) (sys_before k),
       cpu_cycles := tsc_delta k\<rparr>"

definition process_directory_serial :: "directory \<Rightarrow> clock \<Rightarrow> base_metrics" where
  "process_directory_serial dir k =
     (case dir of
        None \<Rightarrow> zero_base_metrics
      | Some files \<Rightarrow> derive_rates (store_deltas k (fold serial_file files zero_base_metrics)))"

subsection \<open>The parallel loop\<close>

text \<open>
  The reduction variables of the \<open>omp parallel for\<close>, in the order
  \<open>total_pixels\<close>, \<open>images_processed\<close>, \<open>max_w\<close>, \<open>max_h\<close>.
\<close>

type_synonym partial = "int \<times> int \<times> int \<times> int"

text \<open>The loop body for one file, on a thread's private copies.\<close>

definition parallel_file :: "load_result \<Rightarrow> partial \<Rightarrow> partial" where
  "parallel_file r p =
     (case p of (tp, ip, mw, mh) \<Rightarrow>
        (case r of
           None \<Rightarrow> p
         | Some (w, h) \<Rightarrow>
             (wrap64 (tp + wrap64 (w * h)), add32 ip 1,
              (if w > mw then w else mw), (if h > mh then h else mh))))"

text \<open>
  OpenMP's \<open>reduction\<close> clause: each thread starts from the identity of the operator
  (0 for \<open>+\<close>, the least \<open>int\<close> for \<open>max\<close>), and at the end of the loop the private
  copies are combined with the original variable by the operator.
\<close>

definition omp_identity :: partial where
  "omp_identity = (0, 0, INT_MIN, INT_MIN)"

definition omp_combine :: "partial \<Rightarrow> partial \<Rightarrow> partial" where
  "omp_combine p q =
     (case p of (tp, ip, mw, mh) \<Rightarrow>
        (case q of (tp', ip', mw', mh') \<Rightarrow>
           (wrap64 (tp + tp'), add32 ip ip', max mw mw', max mh mh')))"

text \<open>
  A schedule is the way the runtime hands the iterations \<open>0 .. file_count - 1\<close> to the
  threads: one list of iteration numbers per thread, in the order that thread runs
  them, and the threads listed in the order their private copies are combined. It
  is valid when every iteration is run exactly once. The runtime is free to pick
  any valid schedule.
\<close>

definition valid_schedule :: "nat \<Rightarrow> nat list list \<Rightarrow> bool" where
  "valid_schedule n sched = (mset (concat sched) = mset [0..<n])"

definition thread_run :: "load_result list \<Rightarrow> nat list \<Rightarrow> partial" where
  "thread_run files chunk = fold parallel_file (map (\<lambda>i. files ! i) chunk) omp_identity"

definition omp_parallel_for :: "load_result list \<Rightarrow> nat list list \<Rightarrow> partial \<Rightarrow> partial" where
  "omp_parallel_for files sched orig = fold (\<lambda>chunk acc. omp_combine acc (thread_run files chunk)) sched orig"

text \<open>
  The estimate of the cycles spent by all threads. The same statements appear in
  \<open>process_directory_parallel\<close> and, twice, in \<open>main\<close> of \<open>parallel.c\<close>.
\<close>

definition estimate_total_cycles :: "(real \<Rightarrow> nat) \<Rightarrow> nat \<Rightarrow> real \<Rightarrow> real \<Rightarrow> nat" where
  "estimate_total_cycles oor cycles cpu_total wall =
     (if wall > 0 \<and> cpu_total > 0
      then let factor = ddiv cpu_total wall;
               est_total = dmul (double_of_u64 cycles) factor;
               est_total' = (if est_total < 0 then 0 else est_total)
           in u64_of_double oor (dadd est_total' (1/2))
      else 0)"

definition derive_estimates :: "(real \<Rightarrow> nat) \<Rightarrow> metrics \<Rightarrow> metrics" where
  "derive_estimates oor m =
     (let cpu_total_time_sec = dadd (cpu_user_time_sec m) (cpu_system_time_sec m);
          est = estimate_total_cycles oor (cpu_cycles m) cpu_total_time_sec (wall_time_sec m);
          m1 = m\<lparr>estimated_total_cycles_all_threads := est\<rparr>;
          m2 = (if images_processed m1 > 0
                then m1\<lparr>estimated_cycles_per_image_all_threads :=
                          ddiv (double_of_u64 est) (double_of_int (images_processed m1))\<rparr>
                else m1\<lparr>estimated_cycles_per_image_all_threads := 0\<rparr>)
      in (if total_pixels m2 > 0
          then m2\<lparr>estimated_cycles_per_pixel_all_threads :=
                    ddiv (double_of_u64 est) (double_of_ll (total_pixels m2))\<rparr>
          else m2\<lparr>estimated_cycles_per_pixel_all_threads := 0\<rparr>))"

text \<open>\<open>process_directory_parallel\<close>; \<open>threads\<close> is the answer of \<open>omp_get_max_threads\<close>.\<close>

definition process_directory_parallel ::
    "(real \<Rightarrow> nat) \<Rightarrow> directory \<Rightarrow> int \<Rightarrow> nat list list \<Rightarrow> clock \<Rightarrow> metrics" where
  "process_directory_parallel oor dir threads sched k =
     (case dir of
        None \<Rightarrow> zero_metrics
      | Some files \<Rightarrow>
          if length files = 0 then zero_metrics
          else
            (case omp_parallel_for files sched (0, 0, 0, 0) of (tp, ip, mw, mh) \<Rightarrow>
               derive_estimates oor (derive_rates (store_deltas k
                 (zero_metrics\<lparr>threads_used := threads, images_processed := ip,
                    total_pixels := tp, max_width := mw, max_height := mh\<rparr>)))))"

subsection \<open>The comparison (main of parallel.c, write\_compare\_json)\<close>

record comparison =
  speedup_wall_time :: real
  speedup_cpu_user :: real
  speedup_cpu_system :: real
  speedup_pixels_per_sec :: real
  parallel_efficiency :: real
  serial_est_total_cycles_all_threads :: nat
  parallel_est_total_cycles_all_threads :: nat

text \<open>Pixels per second of a run, computed alike in \<open>main\<close> and in \<open>write_compare_json\<close>.\<close>

definition pixels_per_sec :: "metrics \<Rightarrow> real" where
  "pixels_per_sec m =
     (if total_pixels m > 0 \<and> wall_time_sec m > 0
      then ddiv (double_of_ll (total_pixels m)) (wall_time_sec m) else 0)"

text \<open>CPU utilization of a run, as \<open>write_compare_json\<close> reports it.\<close>

definition cpu_utilization :: "metrics \<Rightarrow> real" where
  "cpu_utilization m =
     (let cpu_time = dadd (cpu_user_time_sec m) (cpu_system_time_sec m)
      in if wall_time_sec m > 0 then ddiv cpu_time (wall_time_sec m) else 0)"

text \<open>The comparison built in \<open>main\<close> from the serial run \<open>sm\<close> read back from its
  file and the parallel run \<open>pm\<close>.\<close>

definition compare :: "(real \<Rightarrow> nat) \<Rightarrow> metrics \<Rightarrow> metrics \<Rightarrow> comparison" where
  "compare oor sm pm =
     (let wall = (if wall_time_sec pm > 0 \<and> wall_time_sec sm > 0
                  then ddiv (wall_time_sec sm) (wall_time_sec pm) else 0);
          user = (if cpu_user_time_sec pm > 0 \<and> cpu_user_time_sec sm > 0
                  then ddiv (cpu_user_time_sec sm) (cpu_user_time_sec pm) else 0);
          sys = (if cpu_system_time_sec pm > 0 \<and> cpu_system_time_sec sm > 0
                 then ddiv (cpu_system_time_sec sm) (cpu_system_time_sec pm) else 0);
          serial_pps = pixels_per_sec sm;
          parallel_pps = pixels_per_sec pm;
          pps = (if serial_pps > 0 \<and> parallel_pps > 0 then ddiv parallel_pps serial_pps else 0);
          eff = (if wall > 0 \<and> threads_used pm > 0
                 then ddiv wall (double_of_int (threads_used pm)) else 0);
          serial_cpu_time = dadd (cpu_user_time_sec sm) (cpu_system_time_sec sm);
          parallel_cpu_time = dadd (cpu_user_time_sec pm) (cpu_system_time_sec pm)
      in \<lparr>speedup_wall_time = wall, speedup_cpu_user = user, speedup_cpu_system = sys,
          speedup_pixels_per_sec = pps, parallel_efficiency = eff,
          serial_est_total_cycles_all_threads =
            estimate_total_cycles oor (cpu_cycles sm) serial_cpu_time (wall_time_sec sm),
          parallel_est_total_cycles_all_threads =
            estimate_total_cycles oor (cpu_cycles pm) parallel_cpu_time (wall_time_sec pm)\<rparr>)"

section \<open>Notions used in the statements\<close>

text \<open>The images of a directory that load, as a multiset of (width, height).\<close>

definition loaded :: "load_result list \<Rightarrow> (int \<times> int) multiset" where
  "loaded files = mset (concat (map (\<lambda>r. case r of None \<Rightarrow> [] | Some d \<Rightarrow> [d]) files))"

definition area_sum :: "(int \<times> int) multiset \<Rightarrow> int" where
  "area_sum M = sum_mset (image_mset (\<lambda>(w, h). w * h) M)"

definition file_count :: "directory \<Rightarrow> nat" where
  "file_count dir = (case dir of None \<Rightarrow> 0 | Some files \<Rightarrow> length files)"

text \<open>The derived rates as the specification words them.\<close>

definition rates_as_specified :: "'a base_metrics_scheme \<Rightarrow> bool" where
  "rates_as_specified m =
     (avg_time_per_image_ms m =
        (if 0 < images_processed m
         then ddiv (dmul (wall_time_sec m) 1000) (double_of_int (images_processed m)) else 0) \<and>
      cycles_per_image m =
        (if 0 < images_processed m
         then ddiv (double_of_u64 (cpu_cycles m)) (double_of_int (images_processed m)) else 0) \<and>
      avg_time_per_pixel_ns m =
        (if 0 < total_pixels m
         then ddiv (dmul (wall_time_sec m) 1000000000) (double_of_ll (total_pixels m)) else 0) \<and>
      cycles_per_pixel m =
        (if 0 < total_pixels m
         then ddiv (double_of_u64 (cpu_cycles m)) (double_of_ll (total_pixels m)) else 0))"

text \<open>A run in which no image loads.\<close>

definition zero_image_run :: "directory \<Rightarrow> bool" where
  "zero_image_run dir = (case dir of None \<Rightarrow> True | Some files \<Rightarrow> list_all (\<lambda>r. r = None) files)"

text \<open>
  An image as the decoder hands it over: the three fields are non-negative \<open>int\<close>
  values, the buffer holds \<open>width * height * channels\<close> bytes, and that product fits
  an \<open>int\<close> (the decoder refuses larger images).
\<close>

definition valid_image :: "image \<Rightarrow> byte list \<Rightarrow> bool" where
  "valid_image img px =
     (data img = Some px \<and>
      0 \<le> width img \<and> width img \<le> INT_MAX \<and>
      0 \<le> height img \<and> height img \<le> INT_MAX \<and>
      0 \<le> channels img \<and> channels img \<le> INT_MAX \<and>
      width img * height img * channels img \<le> INT_MAX \<and>
      int (length px) = width img * height img * channels img)"

text \<open>The weighted sum of the specification in exact arithmetic, and its integer
  truncation.\<close>

definition exact_luminance :: "byte \<Rightarrow> byte \<Rightarrow> byte \<Rightarrow> real" where
  "exact_luminance r g b =
     (299 * double_of_byte r + 587 * double_of_byte g + 114 * double_of_byte b) / 1000"

definition luminance_floor :: "byte \<Rightarrow> byte \<Rightarrow> byte \<Rightarrow> int" where
  "luminance_floor r g b = (299 * uint r + 587 * uint g + 114 * uint b) div 1000"

text \<open>
  The luminance byte of the pixel \<open>(x, y)\<close> of a buffer, the convolution of a 3 by 3
  kernel with a field of values, the interior of an image, and the magnitude the
  convolution loop stores: the real square root, truncated and clamped to 255.
\<close>

definition pixel_luma :: "byte list \<Rightarrow> int \<Rightarrow> int \<Rightarrow> int \<Rightarrow> int \<Rightarrow> int" where
  "pixel_luma px w c x y =
     (let p = nat ((y * w + x) * c) in uint (luminance (px ! p) (px ! (p + 1)) (px ! (p + 2))))"

definition convolve :: "int list list \<Rightarrow> (int \<Rightarrow> int \<Rightarrow> int) \<Rightarrow> int \<Rightarrow> int \<Rightarrow> int" where
  "convolve K f x y =
     (\<Sum>(ky, kx) \<leftarrow> List.product [-1, 0, 1] [-1, 0, 1].
        K ! nat (ky + 1) ! nat (kx + 1) * f (x + kx) (y + ky))"

definition interior :: "int \<Rightarrow> int \<Rightarrow> int \<Rightarrow> int \<Rightarrow> bool" where
  "interior w h x y = (1 \<le> x \<and> x \<le> w - 2 \<and> 1 \<le> y \<and> y \<le> h - 2)"

definition edge_magnitude :: "int \<Rightarrow> int \<Rightarrow> int" where
  "edge_magnitude gx gy = min 255 \<lfloor>sqrt (of_int (gx * gx + gy * gy))\<rfloor>"

text \<open>
  The three colour bytes of the pixel \<open>(x, y)\<close> after a run that ended without a
  fault, and the value the convolution loop stores for an interior pixel.
\<close>

definition rgb_at :: "fault + image \<Rightarrow> int \<Rightarrow> int \<Rightarrow> (byte \<times> byte \<times> byte) option" where
  "rgb_at r x y =
     (case r of
        Inl e \<Rightarrow> None
      | Inr img \<Rightarrow>
          (case data img of
             None \<Rightarrow> None
           | Some px \<Rightarrow>
               let p = nat ((y * width img + x) * channels img)
               in if p + 2 < length px then Some (px ! p, px ! (p + 1), px ! (p + 2)) else None))"

definition sobel_value :: "byte list \<Rightarrow> int \<Rightarrow> int \<Rightarrow> int \<Rightarrow> int \<Rightarrow> int" where
  "sobel_value px w c x y =
     edge_magnitude (convolve sobel_gx (pixel_luma px w c) x y)
                    (convolve sobel_gy (pixel_luma px w c) x y)"

text \<open>The magnitude as the specification words it: the nearest integer to the square
  root, clamped to \<open>[0, 255]\<close>.\<close>

definition rounded_magnitude :: "int \<Rightarrow> int \<Rightarrow> int" where
  "rounded_magnitude gx gy = max 0 (min 255 (round (sqrt (of_int (gx * gx + gy * gy)))))"

text \<open>
  Two 3 by 3 images with three channels: black with one pixel \<open>(7, 7, 7)\<close> in the
  bottom right corner, and one colour \<open>(10, 20, 30)\<close> everywhere.
\<close>

definition corner_image :: image where
  "corner_image =
     \<lparr>width = 3, height = 3, channels = 3,
      data = Some [0, 0, 0,  0, 0, 0,  0, 0, 0,
                   0, 0, 0,  0, 0, 0,  0, 0, 0,
                   0, 0, 0,  0, 0, 0,  7, 7, 7]\<rparr>"


text \<open>One row of 8421505 white pixels.\<close>

definition wide_row :: image where
  "wide_row = \<lparr>width = 8421505, height = 1, channels = 3,
                data = Some (replicate 25264515 255)\<rparr>"

text \<open>Every pixel of the first \<open>n\<close> of a buffer carries the colour \<open>v\<close>.\<close>

definition uniform_colour :: "byte list \<Rightarrow> int \<Rightarrow> int \<Rightarrow> byte \<times> byte \<times> byte \<Rightarrow> bool" where
  "uniform_colour px n c v =
     list_all (\<lambda>i. (px ! nat (i * c), px ! (nat (i * c) + 1), px ! (nat (i * c) + 2)) = v)
       [0 .. n - 1]"

section \<open>Properties of the box blur\<close>

text \<open>
  Claim C5. For every image and every radius \<open>\<le> 0\<close>, \<open>apply_box_blur\<close> returns
  without a fault and the image after the call (width, height, channels and the
  pixel buffer, byte for byte) is the image before the call, whatever the
  allocator would have answered.
\<close>

theorem box_blur_nonpositive_radius_identity:
  "radius \<le> 0 \<Longrightarrow> apply_box_blur a img radius = Inr img"
  by (simp add: apply_box_blur_def split: option.split)

theorem box_blur_nonpositive_radius_identity_witness:
  "(0::int) \<le> 0 \<and>
   apply_box_blur (Some (\<lambda>_. 0))
     \<lparr>width = 1, height = 1, channels = 3, data = Some [10, 20, 30]\<rparr> 0
   = Inr \<lparr>width = 1, height = 1, channels = 3, data = Some [10, 20, 30]\<rparr>"
  using box_blur_nonpositive_radius_identity
    [of 0 "Some (\<lambda>_. 0)" "\<lparr>width = 1, height = 1, channels = 3, data = Some [10, 20, 30]\<rparr>"]
  by simp

section \<open>Facts about the machine arithmetic\<close>

subsection \<open>Rounding to double precision\<close>

lemma rnd_even_of_int: "rnd_even (of_int n) = n"
  by (simp add: rnd_even_def)

lemma rnd_even_err: "\<bar>of_int (rnd_even x) - x\<bar> \<le> 1/2"
  unfolding rnd_even_def Let_def by (auto; linarith)

lemma rnd_even_ge_int: "of_int n \<le> x \<Longrightarrow> n \<le> rnd_even x"
proof -
  assume "of_int n \<le> x"
  then have "n \<le> \<lfloor>x\<rfloor>" by (simp add: le_floor_iff)
  then show ?thesis unfolding rnd_even_def Let_def by auto
qed

lemma rnd_even_le_int: "x \<le> of_int n \<Longrightarrow> rnd_even x \<le> n"
proof -
  assume le: "x \<le> of_int n"
  show ?thesis
  proof (cases "x = of_int n")
    case True
    then show ?thesis by (simp add: rnd_even_of_int)
  next
    case False
    then have "x < of_int n" using le by simp
    then have "\<lfloor>x\<rfloor> < n" by (simp add: floor_less_iff)
    then show ?thesis unfolding rnd_even_def Let_def by auto
  qed
qed

lemma ilog2_bounds:
  assumes "0 < x"
  shows "2 powi (ilog2 x) \<le> x \<and> x < 2 powi (ilog2 x + 1)"
proof (cases "1 \<le> x")
  case True
  let ?n = "\<lfloor>x\<rfloor>"
  have n: "0 < ?n" using True by simp
  from bitlen_bounds [OF n] have lo: "2 ^ nat (bitlen ?n - 1) \<le> ?n" and hi: "?n < 2 ^ nat (bitlen ?n)"
    by simp_all
  have b1: "1 \<le> bitlen ?n" using n by (simp add: bitlen_alt_def)
  have "(2::real) ^ nat (bitlen ?n - 1) \<le> of_int ?n"
    using lo by (metis of_int_le_iff of_int_numeral of_int_power)
  also have "\<dots> \<le> x" by simp
  finally have L: "(2::real) powi (bitlen ?n - 1) \<le> x"
    using b1 by (simp add: power_int_def)
  have "?n + 1 \<le> 2 ^ nat (bitlen ?n)" using hi by simp
  then have "of_int (?n + 1) \<le> (2::real) ^ nat (bitlen ?n)"
    by (metis of_int_le_iff of_int_numeral of_int_power)
  moreover have "x < of_int (?n + 1)" by linarith
  ultimately have "x < (2::real) ^ nat (bitlen ?n)" by linarith
  then have U: "x < (2::real) powi (bitlen ?n)"
    using b1 by (simp add: power_int_def)
  show ?thesis using L U True by (simp add: ilog2_def)
next
  case False
  then have x1: "x < 1" by simp
  let ?n = "\<lfloor>1 / x\<rfloor>"
  let ?k = "bitlen ?n"
  have "1 < 1 / x" using assms x1 by simp
  then have n: "0 < ?n" by linarith
  from bitlen_bounds [OF n] have lo: "2 ^ nat (?k - 1) \<le> ?n" and hi: "?n < 2 ^ nat ?k"
    by simp_all
  have b1: "1 \<le> ?k" using n by (simp add: bitlen_alt_def)
  have "(2::real) ^ nat (?k - 1) \<le> of_int ?n"
    using lo by (metis of_int_le_iff of_int_numeral of_int_power)
  also have "\<dots> \<le> 1 / x" by simp
  finally have A: "(2::real) ^ nat (?k - 1) \<le> 1 / x" .
  have "?n + 1 \<le> 2 ^ nat ?k" using hi by simp
  then have "of_int (?n + 1) \<le> (2::real) ^ nat ?k"
    by (metis of_int_le_iff of_int_numeral of_int_power)
  moreover have "1 / x < of_int (?n + 1)" by linarith
  ultimately have B: "1 / x < (2::real) ^ nat ?k" by linarith
  have xle: "x * 2 ^ nat (?k - 1) \<le> 1"
    using A assms by (simp add: field_simps)
  have xgt: "1 < x * 2 ^ nat ?k"
    using B assms by (simp add: field_simps)
  have pk: "(2::real) ^ nat ?k = 2 * 2 ^ nat (?k - 1)"
    using b1 by (metis Suc_nat_eq_nat_zadd1 add.commute diff_add_cancel diff_ge_0_iff_ge power_Suc)
  have p1: "(2::real) powi (- ?k) = 1 / 2 ^ nat ?k"
    using b1 by (simp add: power_int_minus power_int_def field_simps)
  have p2: "(2::real) powi (1 - ?k) = 2 / 2 ^ nat ?k"
    using power_int_add [of "2::real" 1 "- ?k"] p1 by simp
  have p3: "(2::real) powi (2 - ?k) = 4 / 2 ^ nat ?k"
    using power_int_add [of "2::real" 1 "1 - ?k"] p2 by simp
  show ?thesis
  proof (cases "x * 2 ^ nat ?k = 2")
    case True
    then have il: "ilog2 x = 1 - ?k" using x1 by (simp add: ilog2_def)
    have xeq: "x = 2 / 2 ^ nat ?k" using True by (simp add: field_simps)
    have "ilog2 x + 1 = 2 - ?k" using il by simp
    then have "(2::real) powi (ilog2 x + 1) = 4 / 2 ^ nat ?k" using p3 by simp
    moreover have "(2::real) powi (ilog2 x) = 2 / 2 ^ nat ?k" using p2 il by simp
    moreover have "(2::real) / 2 ^ nat ?k < 4 / 2 ^ nat ?k" by (simp add: field_simps)
    ultimately show ?thesis using xeq by simp
  next
    case ne: False
    then have il: "ilog2 x = - ?k" using x1 by (simp add: ilog2_def Let_def)
    have "x * 2 ^ nat ?k \<le> 2" using xle pk by simp
    then have "x * 2 ^ nat ?k < 2" using ne by simp
    then have "x < 2 / 2 ^ nat ?k" by (simp add: field_simps)
    moreover have "1 / 2 ^ nat ?k \<le> x" using xgt by (simp add: field_simps)
    moreover have "ilog2 x + 1 = 1 - ?k" using il by simp
    ultimately show ?thesis using il p1 p2 by simp
  qed
qed

lemma powi2_less_iff: "(2::real) powi a < 2 powi b \<longleftrightarrow> a < b"
proof
  assume "(2::real) powi a < 2 powi b"
  show "a < b"
  proof (rule ccontr)
    assume "\<not> a < b"
    then have "b \<le> a" by simp
    then have "(2::real) powi b \<le> 2 powi a" by (intro power_int_increasing) simp_all
    with \<open>(2::real) powi a < 2 powi b\<close> show False by simp
  qed
next
  assume "a < b"
  then show "(2::real) powi a < 2 powi b" by (intro power_int_strict_increasing) simp_all
qed

lemma powi2_le_iff: "(2::real) powi a \<le> 2 powi b \<longleftrightarrow> a \<le> b"
  using powi2_less_iff [of b a] by (simp add: not_less [symmetric])

lemma ilog2_unique:
  assumes "2 powi k \<le> x" and "x < 2 powi (k + 1)"
  shows "ilog2 x = k"
proof -
  have pos: "0 < x" using assms(1) zero_less_power_int [of "2::real" k] by linarith
  from ilog2_bounds [OF pos] have b: "2 powi (ilog2 x) \<le> x" "x < 2 powi (ilog2 x + 1)" by simp_all
  have "(2::real) powi k < 2 powi (ilog2 x + 1)" using assms(1) b(2) by linarith
  then have "k < ilog2 x + 1" by (simp add: powi2_less_iff)
  moreover have "(2::real) powi (ilog2 x) < 2 powi (k + 1)" using assms(2) b(1) by linarith
  then have "ilog2 x < k + 1" by (simp add: powi2_less_iff)
  ultimately show ?thesis by simp
qed

lemma ilog2_mono:
  assumes "0 < x" and "x \<le> y"
  shows "ilog2 x \<le> ilog2 y"
proof -
  have "0 < y" using assms by simp
  from ilog2_bounds [OF assms(1)] ilog2_bounds [OF this]
  have "(2::real) powi (ilog2 x) < 2 powi (ilog2 y + 1)" using assms(2) by linarith
  then show ?thesis by (simp add: powi2_less_iff)
qed

lemma dbl_pos_eq:
  "0 < x \<Longrightarrow> dbl x = of_int (rnd_even (x / 2 powi (ilog2 x - 52))) * 2 powi (ilog2 x - 52)"
  by (simp add: dbl_def Let_def)

lemma dbl_zero: "dbl 0 = 0"
  by (simp add: dbl_def)

lemma dbl_minus: "dbl (- x) = - dbl x"
  by (simp add: dbl_def Let_def sgn_minus)

lemma p52: "(2::real) powi k = 2 ^ 52 * 2 powi (k - 52)"
  using power_int_add [of "2::real" 52 "k - 52"] by simp

lemma p53: "(2::real) powi (k + 1) = 2 ^ 53 * 2 powi (k - 52)"
  using power_int_add [of "2::real" 53 "k - 52"] by (simp add: add.commute)

lemma phalf: "(2::real) powi (k - 53) = (1/2) * 2 powi (k - 52)"
  using power_int_add [of "2::real" 1 "k - 53"] by simp

lemma scaled_bounds:
  assumes "0 < x"
  shows "2 ^ 52 \<le> x / 2 powi (ilog2 x - 52)" and "x / 2 powi (ilog2 x - 52) < 2 ^ 53"
proof -
  let ?e = "ilog2 x - 52"
  have p: "(0::real) < 2 powi ?e" by simp
  from ilog2_bounds [OF assms] have lo: "2 powi (ilog2 x) \<le> x" and hi: "x < 2 powi (ilog2 x + 1)"
    by simp_all
  have a: "(2::real) powi (ilog2 x) = 2 ^ 52 * 2 powi ?e"
    by (rule p52)
  have b: "(2::real) powi (ilog2 x + 1) = 2 ^ 53 * 2 powi ?e"
    by (rule p53)
  show "2 ^ 52 \<le> x / 2 powi ?e"
    using lo a p by (simp add: pos_le_divide_eq)
  show "x / 2 powi ?e < 2 ^ 53"
    using hi b p by (simp add: pos_divide_less_eq)
qed

lemma dbl_error:
  assumes "0 < x"
  shows "\<bar>dbl x - x\<bar> \<le> 2 powi (ilog2 x - 53)"
proof -
  let ?e = "ilog2 x - 52"
  let ?q = "x / 2 powi ?e"
  have p: "(0::real) < 2 powi ?e" by simp
  have x: "x = ?q * 2 powi ?e" using p by simp
  have "dbl x - x = (of_int (rnd_even ?q) - ?q) * 2 powi ?e"
    using p by (simp add: dbl_pos_eq [OF assms] algebra_simps)
  then have "\<bar>dbl x - x\<bar> = \<bar>of_int (rnd_even ?q) - ?q\<bar> * 2 powi ?e"
    using p by (simp add: abs_mult)
  also have "\<dots> \<le> (1/2) * 2 powi ?e"
    using rnd_even_err [of ?q] p by (intro mult_right_mono) simp_all
  also have "(1/2) * 2 powi ?e = (2::real) powi (ilog2 x - 53)"
    by (rule phalf [symmetric])
  finally show ?thesis .
qed

lemma dbl_rel_error:
  assumes "0 < x"
  shows "\<bar>dbl x - x\<bar> \<le> x / 2 ^ 53"
proof -
  have "(2::real) powi (ilog2 x - 53) = 2 powi (ilog2 x) / 2 ^ 53"
    using power_int_add [of "2::real" "ilog2 x" "-53"] by (simp add: field_simps)
  also have "\<dots> \<le> x / 2 ^ 53"
    using ilog2_bounds [OF assms] by (simp add: divide_right_mono)
  finally show ?thesis using dbl_error [OF assms] by linarith
qed

lemma dbl_fix:
  assumes "0 < x" and "x / 2 powi (ilog2 x - 52) = of_int m"
  shows "dbl x = x"
proof -
  have p: "(0::real) < 2 powi (ilog2 x - 52)" by simp
  have "dbl x = of_int m * 2 powi (ilog2 x - 52)"
    by (simp add: dbl_pos_eq [OF assms(1)] assms(2) rnd_even_of_int)
  also have "\<dots> = x" using assms(2) [symmetric] p by simp
  finally show ?thesis .
qed

lemma dbl_fixD:
  assumes "0 < x" and "dbl x = x"
  shows "x / 2 powi (ilog2 x - 52) = of_int (rnd_even (x / 2 powi (ilog2 x - 52)))"
proof -
  have p: "(0::real) < 2 powi (ilog2 x - 52)" by simp
  have "of_int (rnd_even (x / 2 powi (ilog2 x - 52))) * 2 powi (ilog2 x - 52) = x"
    using assms dbl_pos_eq [OF assms(1)] by simp
  then show ?thesis using p by (simp add: field_simps)
qed

lemma dbl_ge_rep:
  assumes r: "0 < r" and fx: "dbl r = r" and le: "r \<le> x"
  shows "r \<le> dbl x"
proof -
  have x: "0 < x" using r le by simp
  let ?er = "ilog2 r - 52" and ?ex = "ilog2 x - 52"
  have px: "(0::real) < 2 powi ?ex" by simp
  have mono: "ilog2 r \<le> ilog2 x" using ilog2_mono [OF r le] .
  show ?thesis
  proof (cases "ilog2 r = ilog2 x")
    case True
    let ?m = "rnd_even (r / 2 powi ?er)"
    have "of_int ?m = r / 2 powi ?ex" using dbl_fixD [OF r fx] True by simp
    also have "\<dots> \<le> x / 2 powi ?ex" using le px by (simp add: divide_right_mono)
    finally have "?m \<le> rnd_even (x / 2 powi ?ex)" by (rule rnd_even_ge_int)
    then have "real_of_int ?m * 2 powi ?ex \<le> real_of_int (rnd_even (x / 2 powi ?ex)) * 2 powi ?ex"
      using px by (simp add: mult_right_mono)
    moreover have "real_of_int ?m * 2 powi ?ex = r"
      using dbl_pos_eq [OF r] fx True by simp
    ultimately show ?thesis using dbl_pos_eq [OF x] by simp
  next
    case False
    then have lt: "ilog2 r + 1 \<le> ilog2 x" using mono by simp
    have "r < 2 powi (ilog2 r + 1)" using ilog2_bounds [OF r] by simp
    also have "\<dots> \<le> 2 powi (ilog2 x)" using lt by (simp add: powi2_le_iff)
    also have "\<dots> = 2 ^ 52 * 2 powi ?ex"
      by (rule p52)
    also have "\<dots> \<le> of_int (rnd_even (x / 2 powi ?ex)) * 2 powi ?ex"
    proof -
      have "of_int (2 ^ 52) \<le> x / 2 powi ?ex" using scaled_bounds(1) [OF x] by simp
      then have "2 ^ 52 \<le> rnd_even (x / 2 powi ?ex)" by (rule rnd_even_ge_int)
      then have "(2::real) ^ 52 \<le> of_int (rnd_even (x / 2 powi ?ex))"
        by (metis of_int_le_iff of_int_numeral of_int_power)
      then show ?thesis using px by (simp add: mult_right_mono)
    qed
    finally show ?thesis using dbl_pos_eq [OF x] by simp
  qed
qed

lemma ilog2_scale:
  assumes "0 < x"
  shows "ilog2 (x * 2 powi j) = ilog2 x + j"
proof (rule ilog2_unique)
  from ilog2_bounds [OF assms] have lo: "2 powi (ilog2 x) \<le> x" and hi: "x < 2 powi (ilog2 x + 1)"
    by simp_all
  have p: "(0::real) < 2 powi j" by simp
  have "(2::real) powi (ilog2 x + j) = 2 powi (ilog2 x) * 2 powi j"
    by (simp add: power_int_add)
  also have "\<dots> \<le> x * 2 powi j" using lo p by (simp add: mult_right_mono)
  finally show "2 powi (ilog2 x + j) \<le> x * 2 powi j" .
  have "x * 2 powi j < 2 powi (ilog2 x + 1) * 2 powi j"
    using hi p by (simp add: mult_strict_right_mono)
  also have "\<dots> = 2 powi (ilog2 x + j + 1)"
    using power_int_add [of "2::real" "ilog2 x + 1" j] by (simp add: add.commute add.left_commute)
  finally show "x * 2 powi j < 2 powi (ilog2 x + j + 1)" .
qed

lemma dbl_scale:
  assumes "0 < x"
  shows "dbl (x * 2 powi j) = dbl x * 2 powi j"
proof -
  have xj: "0 < x * 2 powi j" using assms by simp
  have e: "ilog2 (x * 2 powi j) - 52 = (ilog2 x - 52) + j"
    using ilog2_scale [OF assms, of j] by simp
  have q: "x * 2 powi j / 2 powi ((ilog2 x - 52) + j) = x / 2 powi (ilog2 x - 52)"
    by (simp add: power_int_add)
  show ?thesis
    unfolding dbl_pos_eq [OF xj] dbl_pos_eq [OF assms] e q
    by (simp add: power_int_add)
qed

lemma dbl_pos_int:
  assumes "0 < n" and "n \<le> 2 ^ 53"
  shows "dbl (of_int n) = of_int n"
proof -
  let ?x = "real_of_int n"
  have x: "0 < ?x" using assms by simp
  have "?x \<le> 2 ^ 53" using assms(2) by (metis of_int_le_iff of_int_numeral of_int_power)
  then have "?x < 2 powi 54" by simp
  with ilog2_bounds [OF x] have "(2::real) powi (ilog2 ?x) < 2 powi 54" by linarith
  then have "ilog2 ?x < 54" unfolding powi2_less_iff .
  then have il: "ilog2 ?x \<le> 53" by simp
  show ?thesis
  proof (cases "ilog2 ?x = 53")
    case True
    then have "2 ^ 53 \<le> ?x" using ilog2_bounds [OF x] by simp
    with \<open>?x \<le> 2 ^ 53\<close> have eq: "?x = 2 ^ 53" by simp
    have "?x / 2 powi (ilog2 ?x - 52) = 2 ^ 53 / 2 powi 1"
      using True eq by simp
    then have "?x / 2 powi (ilog2 ?x - 52) = of_int (2 ^ 52)"
      by simp
    then show ?thesis by (rule dbl_fix [OF x])
  next
    case False
    then have "0 \<le> 52 - ilog2 ?x" using il by simp
    then have "(2::real) powi (52 - ilog2 ?x) = 2 ^ nat (52 - ilog2 ?x)"
      by (simp add: power_int_def)
    moreover have "?x / 2 powi (ilog2 ?x - 52) = ?x * 2 powi (52 - ilog2 ?x)"
      using power_int_minus [of "2::real" "ilog2 ?x - 52"] by (simp add: field_simps)
    ultimately have "?x / 2 powi (ilog2 ?x - 52) = of_int (n * 2 ^ nat (52 - ilog2 ?x))"
      by simp
    then show ?thesis by (rule dbl_fix [OF x])
  qed
qed

lemma dbl_int:
  assumes "\<bar>n\<bar> \<le> 2 ^ 53"
  shows "dbl (of_int n) = of_int n"
proof -
  consider "n = 0" | "0 < n" | "n < 0" by linarith
  then show ?thesis
  proof cases
    case 1
    then show ?thesis by (simp add: dbl_zero)
  next
    case 2
    then show ?thesis using assms by (intro dbl_pos_int) simp_all
  next
    case 3
    then have "dbl (of_int (- n)) = of_int (- n)" using assms by (intro dbl_pos_int) simp_all
    then show ?thesis using dbl_minus [of "of_int n"] by simp
  qed
qed

lemma dbl_dyadic:
  assumes "\<bar>n\<bar> \<le> 2 ^ 53"
  shows "dbl (of_int n * 2 powi j) = of_int n * 2 powi j"
proof -
  consider "n = 0" | "0 < n" | "n < 0" by linarith
  then show ?thesis
  proof cases
    case 1
    then show ?thesis by (simp add: dbl_zero)
  next
    case 2
    then show ?thesis using dbl_scale [of "of_int n" j] dbl_int [OF assms] by simp
  next
    case 3
    then have "dbl (of_int (- n) * 2 powi j) = dbl (of_int (- n)) * 2 powi j"
      by (intro dbl_scale) simp
    moreover have "dbl (of_int (- n)) = of_int (- n)" using assms by (intro dbl_int) simp
    ultimately show ?thesis using dbl_minus [of "of_int n * 2 powi j"] by simp
  qed
qed

lemma dbl_numeral: "numeral k \<le> (2::int) ^ 53 \<Longrightarrow> dbl (numeral k) = numeral k"
  using dbl_int [of "numeral k"] by simp

lemma dbl_one: "dbl 1 = 1"
  using dbl_int [of 1] by simp

lemma dbl_pos: "0 < x \<Longrightarrow> 0 < dbl x"
proof -
  assume x: "0 < x"
  have "of_int (2 ^ 52) \<le> x / 2 powi (ilog2 x - 52)" using scaled_bounds(1) [OF x] by simp
  then have "2 ^ 52 \<le> rnd_even (x / 2 powi (ilog2 x - 52))" by (rule rnd_even_ge_int)
  then have "0 < rnd_even (x / 2 powi (ilog2 x - 52))" by simp
  then show ?thesis unfolding dbl_pos_eq [OF x] by simp
qed

lemma dbl_nonneg: "0 \<le> x \<Longrightarrow> 0 \<le> dbl x"
  using dbl_pos [of x] by (cases "x = 0") (simp_all add: dbl_zero less_imp_le)

lemma dbl_idem_pos:
  assumes x: "0 < x"
  shows "dbl (dbl x) = dbl x"
proof -
  let ?e = "ilog2 x - 52"
  let ?m = "rnd_even (x / 2 powi ?e)"
  have "of_int (2 ^ 52) \<le> x / 2 powi ?e" using scaled_bounds(1) [OF x] by simp
  then have lo: "2 ^ 52 \<le> ?m" by (rule rnd_even_ge_int)
  have "x / 2 powi ?e \<le> of_int (2 ^ 53)" using scaled_bounds(2) [OF x] by simp
  then have hi: "?m \<le> 2 ^ 53" by (rule rnd_even_le_int)
  have "\<bar>?m\<bar> \<le> 2 ^ 53" using lo hi by simp
  from dbl_dyadic [OF this, of ?e] show ?thesis
    unfolding dbl_pos_eq [OF x] .
qed

lemma dbl_idem: "dbl (dbl x) = dbl x"
proof -
  consider "x = 0" | "0 < x" | "x < 0" by linarith
  then show ?thesis
  proof cases
    case 1
    then show ?thesis by (simp add: dbl_zero)
  next
    case 2
    then show ?thesis by (rule dbl_idem_pos)
  next
    case 3
    then have "dbl (dbl (- x)) = dbl (- x)" by (intro dbl_idem_pos) simp
    then show ?thesis by (simp add: dbl_minus)
  qed
qed

section \<open>The counters of the two harnesses\<close>

lemma wrap32_idem_add: "wrap32 (wrap32 a + b) = wrap32 (a + b)"
  unfolding wrap32_def by (simp add: algebra_simps mod_simps)

lemma wrap32_idem_add2: "wrap32 (a + wrap32 b) = wrap32 (a + b)"
  unfolding wrap32_def by (simp add: algebra_simps mod_simps)

lemma wrap64_idem_add: "wrap64 (wrap64 a + b) = wrap64 (a + b)"
  unfolding wrap64_def by (simp add: algebra_simps mod_simps)

lemma wrap64_idem_add2: "wrap64 (a + wrap64 b) = wrap64 (a + b)"
  unfolding wrap64_def by (simp add: algebra_simps mod_simps)

lemma loaded_Nil: "loaded [] = {#}" by (simp add: loaded_def)
lemma loaded_None: "loaded (None # fs) = loaded fs" by (simp add: loaded_def)
lemma loaded_Some: "loaded (Some d # fs) = add_mset d (loaded fs)" by (simp add: loaded_def)
lemma loaded_append: "loaded (xs @ ys) = loaded xs + loaded ys" by (simp add: loaded_def)


lemma Max_insert_max:
  "finite S \<Longrightarrow> Max (insert (max a w) S) = Max (insert a (insert (w::int) S))"
  by (cases "S = {}") (auto simp: max.assoc max.commute max.left_commute)

lemma serial_file_None: "serial_file None m = m"
  by (simp add: serial_file_def)

lemma serial_file_Some_fields:
  "images_processed (serial_file (Some (w, h)) m) = add32 (images_processed m) 1"
  "total_pixels (serial_file (Some (w, h)) m) = wrap64 (total_pixels m + wrap64 (w * h))"
  "max_width (serial_file (Some (w, h)) m) = max (max_width m) w"
  "max_height (serial_file (Some (w, h)) m) = max (max_height m) h"
  by (simp_all add: serial_file_def Let_def max_def)


lemma wrap32_idem: "wrap32 (wrap32 a) = wrap32 a"
  unfolding wrap32_def by (simp add: algebra_simps mod_simps)

lemma wrap64_idem: "wrap64 (wrap64 a) = wrap64 a"
  unfolding wrap64_def by (simp add: algebra_simps mod_simps)

lemma serial_fold_counts:
  assumes "wrap32 (images_processed m) = images_processed m"
      and "wrap64 (total_pixels m) = total_pixels m"
  shows
  "images_processed (fold serial_file fs m) = wrap32 (images_processed m + int (size (loaded fs))) \<and>
   total_pixels (fold serial_file fs m) = wrap64 (total_pixels m + area_sum (loaded fs)) \<and>
   max_width (fold serial_file fs m) = Max (insert (max_width m) (fst ` set_mset (loaded fs))) \<and>
   max_height (fold serial_file fs m) = Max (insert (max_height m) (snd ` set_mset (loaded fs)))"
  using assms
proof (induction fs arbitrary: m)
  case Nil
  then show ?case by (simp add: loaded_Nil area_sum_def)
next
  case (Cons r fs)
  show ?case
  proof (cases r)
    case None
    then show ?thesis using Cons.IH [of m] Cons.prems by (simp add: serial_file_None loaded_None)
  next
    case (Some d)
    obtain w h where d: "d = (w, h)" by (cases d)
    have r: "r = Some (w, h)" using Some d by simp
    let ?m = "serial_file (Some (w, h)) m"
    have "wrap32 (images_processed ?m) = images_processed ?m"
         "wrap64 (total_pixels ?m) = total_pixels ?m"
      by (simp_all add: serial_file_Some_fields add32_def wrap32_idem wrap64_idem)
    from Cons.IH [OF this] show ?thesis
      unfolding r fold_Cons comp_apply
      by (simp add: serial_file_Some_fields loaded_Some add32_def wrap32_idem_add wrap32_idem_add2
          wrap64_idem_add wrap64_idem_add2 area_sum_def algebra_simps Max_insert_max)
  qed
qed

lemma parallel_file_None: "parallel_file None p = p"
  by (simp add: parallel_file_def split: prod.split)

lemma parallel_file_Some:
  "parallel_file (Some (w, h)) (tp, ip, mw, mh) =
     (wrap64 (tp + wrap64 (w * h)), add32 ip 1, max mw w, max mh h)"
  by (simp add: parallel_file_def max_def)

lemma parallel_fold_counts:
  assumes "wrap64 tp = tp" and "wrap32 ip = ip"
  shows "fold parallel_file fs (tp, ip, mw, mh) =
     (wrap64 (tp + area_sum (loaded fs)), wrap32 (ip + int (size (loaded fs))),
      Max (insert mw (fst ` set_mset (loaded fs))), Max (insert mh (snd ` set_mset (loaded fs))))"
  using assms
proof (induction fs arbitrary: tp ip mw mh)
  case Nil
  then show ?case by (simp add: loaded_Nil area_sum_def)
next
  case (Cons r fs)
  show ?case
  proof (cases r)
    case None
    then show ?thesis using Cons.IH [of tp ip mw mh] Cons.prems
      by (simp add: parallel_file_None loaded_None)
  next
    case (Some d)
    obtain w h where d: "d = (w, h)" by (cases d)
    have r: "r = Some (w, h)" using Some d by simp
    have "wrap64 (wrap64 (tp + wrap64 (w * h))) = wrap64 (tp + wrap64 (w * h))"
         "wrap32 (add32 ip 1) = add32 ip 1"
      by (simp_all add: add32_def wrap32_idem wrap64_idem)
    from Cons.IH [OF this] show ?thesis
      unfolding r fold_Cons comp_apply parallel_file_Some
      by (simp add: loaded_Some add32_def wrap32_idem_add wrap32_idem_add2
          wrap64_idem_add wrap64_idem_add2 area_sum_def algebra_simps Max_insert_max)
  qed
qed

lemma thread_run_counts:
  "thread_run files chunk =
     (let M = loaded (map (\<lambda>i. files ! i) chunk) in
      (wrap64 (area_sum M), wrap32 (int (size M)),
       Max (insert INT_MIN (fst ` set_mset M)), Max (insert INT_MIN (snd ` set_mset M))))"
  unfolding thread_run_def omp_identity_def
  by (subst parallel_fold_counts) (simp_all add: wrap32_def wrap64_def Let_def)

lemma Max_insert_union:
  "finite A \<Longrightarrow> finite B \<Longrightarrow> c \<le> a \<Longrightarrow>
   max (Max (insert a A)) (Max (insert (c::int) B)) = Max (insert a (A \<union> B))"
proof -
  assume fin: "finite A" "finite B" and le: "c \<le> a"
  have "Max (insert a A \<union> insert c B) = max (Max (insert a A)) (Max (insert c B))"
    using fin by (intro Max_Un) auto
  moreover have "Max (insert a A \<union> insert c B) = Max (insert c (insert a (A \<union> B)))"
    by (simp add: insert_commute Un_commute)
  moreover have "Max (insert c (insert a (A \<union> B))) = Max (insert a (A \<union> B))"
    using fin le by (subst Max_insert) (auto simp: max_def intro: order_trans [OF le] Max_ge)
  ultimately show ?thesis by simp
qed

lemma Max_insert_union2:
  "finite A \<Longrightarrow> finite B \<Longrightarrow>
   Max (insert (Max (insert (a::int) A)) B) = Max (insert a (A \<union> B))"
proof -
  assume fin: "finite A" "finite B"
  have "Max (insert a A \<union> B) = Max (insert (Max (insert a A)) B)"
  proof (cases "B = {}")
    case True
    then show ?thesis by simp
  next
    case False
    have "Max (insert a A \<union> B) = max (Max (insert a A)) (Max B)"
      using fin False by (intro Max_Un) auto
    also have "\<dots> = Max (insert (Max (insert a A)) B)"
      using fin False by simp
    finally show ?thesis .
  qed
  then show ?thesis by simp
qed

lemma omp_parallel_for_counts:
  assumes "wrap64 tp = tp" and "wrap32 ip = ip" and "INT_MIN \<le> mw" and "INT_MIN \<le> mh"
  shows "omp_parallel_for files sched (tp, ip, mw, mh) =
     (let M = loaded (map (\<lambda>i. files ! i) (concat sched)) in
      (wrap64 (tp + area_sum M), wrap32 (ip + int (size M)),
       Max (insert mw (fst ` set_mset M)), Max (insert mh (snd ` set_mset M))))"
  using assms
proof (induction sched arbitrary: tp ip mw mh)
  case Nil
  then show ?case by (simp add: omp_parallel_for_def loaded_Nil area_sum_def)
next
  case (Cons chunk sched)
  let ?N = "loaded (map (\<lambda>i. files ! i) chunk)"
  let ?tp = "wrap64 (tp + wrap64 (area_sum ?N))"
  let ?ip = "add32 ip (wrap32 (int (size ?N)))"
  let ?mw = "max mw (Max (insert INT_MIN (fst ` set_mset ?N)))"
  let ?mh = "max mh (Max (insert INT_MIN (snd ` set_mset ?N)))"
  have step: "omp_combine (tp, ip, mw, mh) (thread_run files chunk) = (?tp, ?ip, ?mw, ?mh)"
    by (simp add: omp_combine_def thread_run_counts Let_def)
  have pre: "wrap64 ?tp = ?tp" "wrap32 ?ip = ?ip" "INT_MIN \<le> ?mw" "INT_MIN \<le> ?mh"
    using Cons.prems by (simp_all add: add32_def wrap32_idem wrap64_idem max_def)
  have mw: "?mw = Max (insert mw (fst ` set_mset ?N))"
    using Max_insert_union [of "{}" "fst ` set_mset ?N" INT_MIN mw] Cons.prems by simp
  have mh: "?mh = Max (insert mh (snd ` set_mset ?N))"
    using Max_insert_union [of "{}" "snd ` set_mset ?N" INT_MIN mh] Cons.prems by simp
  have "omp_parallel_for files (chunk # sched) (tp, ip, mw, mh)
        = omp_parallel_for files sched (?tp, ?ip, ?mw, ?mh)"
    by (simp add: omp_parallel_for_def step)
  also note Cons.IH [OF pre]
  finally show ?case
    unfolding mw mh
    by (simp add: Let_def loaded_append add32_def wrap32_idem_add wrap32_idem_add2
        wrap64_idem_add wrap64_idem_add2 area_sum_def algebra_simps image_Un Max_insert_union2)
qed


lemma loaded_mset: "loaded xs = image_mset the (filter_mset (\<lambda>r. r \<noteq> None) (mset xs))"
proof (induction xs)
  case Nil
  then show ?case by (simp add: loaded_Nil)
next
  case (Cons r xs)
  then show ?case by (cases r) (simp_all add: loaded_None loaded_Some)
qed

lemma loaded_cong: "mset xs = mset ys \<Longrightarrow> loaded xs = loaded ys"
  by (simp add: loaded_mset)

lemma loaded_schedule:
  assumes "valid_schedule (length files) sched"
  shows "loaded (map (\<lambda>i. files ! i) (concat sched)) = loaded files"
proof -
  have "mset (map (\<lambda>i. files ! i) (concat sched)) = image_mset (\<lambda>i. files ! i) (mset [0..<length files])"
    using assms by (simp add: valid_schedule_def)
  also have "\<dots> = mset (map (\<lambda>i. files ! i) [0..<length files])"
    by simp
  also have "\<dots> = mset files"
    by (simp add: map_nth)
  finally show ?thesis by (rule loaded_cong)
qed

lemma derive_rates_counts:
  "images_processed (derive_rates m) = images_processed m"
  "total_pixels (derive_rates m) = total_pixels m"
  "max_width (derive_rates m) = max_width m"
  "max_height (derive_rates m) = max_height m"
  by (simp_all add: derive_rates_def Let_def)

lemma store_deltas_counts:
  "images_processed (store_deltas k m) = images_processed m"
  "total_pixels (store_deltas k m) = total_pixels m"
  "max_width (store_deltas k m) = max_width m"
  "max_height (store_deltas k m) = max_height m"
  by (simp_all add: store_deltas_def)

lemma derive_estimates_counts:
  "images_processed (derive_estimates oor m) = images_processed m"
  "total_pixels (derive_estimates oor m) = total_pixels m"
  "max_width (derive_estimates oor m) = max_width m"
  "max_height (derive_estimates oor m) = max_height m"
  by (simp_all add: derive_estimates_def Let_def)

lemma serial_counts:
  "images_processed (process_directory_serial (Some files) k) = wrap32 (int (size (loaded files)))"
  "total_pixels (process_directory_serial (Some files) k) = wrap64 (area_sum (loaded files))"
  "max_width (process_directory_serial (Some files) k) = Max (insert 0 (fst ` set_mset (loaded files)))"
  "max_height (process_directory_serial (Some files) k) = Max (insert 0 (snd ` set_mset (loaded files)))"
  using serial_fold_counts [of zero_base_metrics files]
  by (simp_all add: process_directory_serial_def derive_rates_counts store_deltas_counts
      zero_base_metrics_def wrap32_def wrap64_def)


lemma parallel_counts:
  assumes sched: "valid_schedule (length files) sched"
  shows "images_processed (process_directory_parallel oor (Some files) threads sched k)
           = wrap32 (int (size (loaded files)))"
    and "total_pixels (process_directory_parallel oor (Some files) threads sched k)
           = wrap64 (area_sum (loaded files))"
    and "max_width (process_directory_parallel oor (Some files) threads sched k)
           = Max (insert 0 (fst ` set_mset (loaded files)))"
    and "max_height (process_directory_parallel oor (Some files) threads sched k)
           = Max (insert 0 (snd ` set_mset (loaded files)))"
proof -
  have red: "omp_parallel_for files sched (0, 0, 0, 0) =
      (wrap64 (area_sum (loaded files)), wrap32 (int (size (loaded files))),
       Max (insert 0 (fst ` set_mset (loaded files))), Max (insert 0 (snd ` set_mset (loaded files))))"
    by (subst omp_parallel_for_counts)
       (simp_all add: wrap32_def wrap64_def INT_MIN_def Let_def loaded_schedule [OF sched])
  have empty: "files = [] \<Longrightarrow> loaded files = {#}" by (simp add: loaded_Nil)
  show "images_processed (process_directory_parallel oor (Some files) threads sched k)
           = wrap32 (int (size (loaded files)))"
    by (cases "files = []")
       (simp_all add: process_directory_parallel_def red derive_estimates_counts
          derive_rates_counts store_deltas_counts zero_metrics_def loaded_Nil wrap32_def)
  show "total_pixels (process_directory_parallel oor (Some files) threads sched k)
           = wrap64 (area_sum (loaded files))"
    by (cases "files = []")
       (simp_all add: process_directory_parallel_def red derive_estimates_counts
          derive_rates_counts store_deltas_counts zero_metrics_def loaded_Nil wrap64_def
          area_sum_def)
  show "max_width (process_directory_parallel oor (Some files) threads sched k)
           = Max (insert 0 (fst ` set_mset (loaded files)))"
    by (cases "files = []")
       (simp_all add: process_directory_parallel_def red derive_estimates_counts
          derive_rates_counts store_deltas_counts zero_metrics_def loaded_Nil)
  show "max_height (process_directory_parallel oor (Some files) threads sched k)
           = Max (insert 0 (snd ` set_mset (loaded files)))"
    by (cases "files = []")
       (simp_all add: process_directory_parallel_def red derive_estimates_counts
          derive_rates_counts store_deltas_counts zero_metrics_def loaded_Nil)
qed

text \<open>
  Claim C2. Take any directory listing with any load outcomes. Let the parallel loop
  run under any valid schedule (any split of the iterations among the threads, any
  order within a thread, any order of combining the private copies), and let the
  sequential loop run over the same entries in any order. Then \<open>images_processed\<close>,
  \<open>total_pixels\<close>, \<open>max_width\<close> and \<open>max_height\<close> of the parallel run are those of
  the sequential run. The same holds when the directory cannot be opened.
\<close>

theorem parallel_counts_equal_serial:
  assumes sched: "valid_schedule (length files) sched"
      and order: "mset files' = mset files"
  shows "images_processed (process_directory_parallel oor (Some files) threads sched k) =
           images_processed (process_directory_serial (Some files') k') \<and>
         total_pixels (process_directory_parallel oor (Some files) threads sched k) =
           total_pixels (process_directory_serial (Some files') k') \<and>
         max_width (process_directory_parallel oor (Some files) threads sched k) =
           max_width (process_directory_serial (Some files') k') \<and>
         max_height (process_directory_parallel oor (Some files) threads sched k) =
           max_height (process_directory_serial (Some files') k') \<and>
         images_processed (process_directory_parallel oor None threads sched k) =
           images_processed (process_directory_serial None k') \<and>
         total_pixels (process_directory_parallel oor None threads sched k) =
           total_pixels (process_directory_serial None k') \<and>
         max_width (process_directory_parallel oor None threads sched k) =
           max_width (process_directory_serial None k') \<and>
         max_height (process_directory_parallel oor None threads sched k) =
           max_height (process_directory_serial None k')"
proof -
  have L: "loaded files' = loaded files" using order by (rule loaded_cong)
  have opened:
    "images_processed (process_directory_parallel oor (Some files) threads sched k) =
       images_processed (process_directory_serial (Some files') k') \<and>
     total_pixels (process_directory_parallel oor (Some files) threads sched k) =
       total_pixels (process_directory_serial (Some files') k') \<and>
     max_width (process_directory_parallel oor (Some files) threads sched k) =
       max_width (process_directory_serial (Some files') k') \<and>
     max_height (process_directory_parallel oor (Some files) threads sched k) =
       max_height (process_directory_serial (Some files') k')"
    by (simp add: parallel_counts [OF sched] serial_counts L)
  have unopened:
    "images_processed (process_directory_parallel oor None threads sched k) =
       images_processed (process_directory_serial None k') \<and>
     total_pixels (process_directory_parallel oor None threads sched k) =
       total_pixels (process_directory_serial None k') \<and>
     max_width (process_directory_parallel oor None threads sched k) =
       max_width (process_directory_serial None k') \<and>
     max_height (process_directory_parallel oor None threads sched k) =
       max_height (process_directory_serial None k')"
    by (simp add: process_directory_parallel_def process_directory_serial_def
        zero_metrics_def zero_base_metrics_def)
  from opened unopened show ?thesis by blast
qed

theorem parallel_counts_equal_serial_witness:
  "valid_schedule (length [Some (4, 3), None, Some (2, 2 :: int) :: load_result]) [[2], [1, 0]] \<and>
   mset [None, Some (2, 2), Some (4, 3)] = mset [Some (4, 3), None, Some (2, 2 :: int) :: load_result] \<and>
   images_processed (process_directory_parallel (\<lambda>_. 0) (Some [Some (4, 3), None, Some (2, 2)]) 2
      [[2], [1, 0]]
      \<lparr>t_start = 0, t_end = 1, user_before = 0, user_after = 1,
       sys_before = 0, sys_after = 0, c_start = 0, c_end = 1600\<rparr>) = 2 \<and>
   images_processed (process_directory_serial (Some [None, Some (2, 2), Some (4, 3)])
      \<lparr>t_start = 0, t_end = 2, user_before = 0, user_after = 1,
       sys_before = 0, sys_after = 0, c_start = 0, c_end = 3200\<rparr>) = 2"
proof -
  have h1: "valid_schedule (length [Some (4, 3), None, Some (2, 2 :: int) :: load_result]) [[2], [1, 0]]"
    by code_simp
  have h2: "mset [None, Some (2, 2), Some (4, 3)] = mset [Some (4, 3), None, Some (2, 2 :: int) :: load_result]"
    by simp
  have s: "images_processed (process_directory_serial (Some [None, Some (2, 2), Some (4, 3)])
      \<lparr>t_start = 0, t_end = 2, user_before = 0, user_after = 1,
       sys_before = 0, sys_after = 0, c_start = 0, c_end = 3200\<rparr>) = 2"
    by (simp add: serial_counts loaded_def wrap32_def)
  note t = parallel_counts_equal_serial [OF h1 h2, of "\<lambda>_. 0" 2
      "\<lparr>t_start = 0, t_end = 1, user_before = 0, user_after = 1,
       sys_before = 0, sys_after = 0, c_start = 0, c_end = 1600\<rparr>"
      "\<lparr>t_start = 0, t_end = 2, user_before = 0, user_after = 1,
       sys_before = 0, sys_after = 0, c_start = 0, c_end = 3200\<rparr>"]
  have p: "images_processed (process_directory_parallel (\<lambda>_. 0) (Some [Some (4, 3), None, Some (2, 2)]) 2
      [[2], [1, 0]]
      \<lparr>t_start = 0, t_end = 1, user_before = 0, user_after = 1,
       sys_before = 0, sys_after = 0, c_start = 0, c_end = 1600\<rparr>) = 2"
    using conjunct1 [OF t] s by (rule trans)
  show ?thesis using h1 h2 p s by (intro conjI)
qed

section \<open>The derived rates\<close>

lemma dbl_half_int: "\<bar>n\<bar> \<le> 2 ^ 53 \<Longrightarrow> dbl (of_int n / 2) = of_int n / 2"
  using dbl_dyadic [of n "-1"] by simp

lemma process_directory_parallel_Some:
  "files \<noteq> [] \<Longrightarrow> omp_parallel_for files sched (0, 0, 0, 0) = (tp, ip, mw, mh) \<Longrightarrow>
   process_directory_parallel oor (Some files) threads sched k =
     derive_estimates oor (derive_rates (store_deltas k
       (zero_metrics\<lparr>threads_used := threads, images_processed := ip,
          total_pixels := tp, max_width := mw, max_height := mh\<rparr>)))"
  by (simp add: process_directory_parallel_def)


lemma derive_rates_as_specified: "rates_as_specified (derive_rates m)"
  by (simp add: rates_as_specified_def derive_rates_def Let_def)

lemma rates_as_specified_zero: "rates_as_specified zero_base_metrics" "rates_as_specified zero_metrics"
  by (simp_all add: rates_as_specified_def zero_base_metrics_def zero_metrics_def)

lemma derive_estimates_base:
  "images_processed (derive_estimates oor m) = images_processed m"
  "total_pixels (derive_estimates oor m) = total_pixels m"
  "wall_time_sec (derive_estimates oor m) = wall_time_sec m"
  "cpu_cycles (derive_estimates oor m) = cpu_cycles m"
  "avg_time_per_image_ms (derive_estimates oor m) = avg_time_per_image_ms m"
  "avg_time_per_pixel_ns (derive_estimates oor m) = avg_time_per_pixel_ns m"
  "cycles_per_image (derive_estimates oor m) = cycles_per_image m"
  "cycles_per_pixel (derive_estimates oor m) = cycles_per_pixel m"
  by (simp_all add: derive_estimates_def Let_def)

lemma derive_estimates_rates:
  "rates_as_specified (derive_estimates oor m) = rates_as_specified m"
  by (simp add: rates_as_specified_def derive_estimates_base)

lemma serial_rates: "rates_as_specified (process_directory_serial dir k)"
  by (cases dir)
     (simp_all add: process_directory_serial_def rates_as_specified_zero derive_rates_as_specified)

lemma parallel_rates: "rates_as_specified (process_directory_parallel oor dir threads sched k)"
  by (cases dir)
     (simp_all add: process_directory_parallel_def rates_as_specified_zero
        derive_estimates_rates derive_rates_as_specified split: prod.split)

lemma loaded_all_None: "list_all (\<lambda>r. r = None) files \<Longrightarrow> loaded files = {#}"
  by (induction files) (simp_all add: loaded_Nil loaded_None)

lemma serial_zero_run:
  assumes "zero_image_run dir"
  shows "images_processed (process_directory_serial dir k) = 0 \<and>
         total_pixels (process_directory_serial dir k) = 0"
proof (cases dir)
  case None
  then show ?thesis by (simp add: process_directory_serial_def zero_base_metrics_def)
next
  case (Some files)
  then have "loaded files = {#}" using assms by (simp add: zero_image_run_def loaded_all_None)
  then show ?thesis using Some
    by (simp add: serial_counts wrap32_def wrap64_def area_sum_def)
qed

lemma parallel_zero_run:
  assumes "zero_image_run dir" and "valid_schedule (file_count dir) sched"
  shows "images_processed (process_directory_parallel oor dir threads sched k) = 0 \<and>
         total_pixels (process_directory_parallel oor dir threads sched k) = 0"
proof (cases dir)
  case None
  then show ?thesis by (simp add: process_directory_parallel_def zero_metrics_def)
next
  case (Some files)
  then have "loaded files = {#}" using assms by (simp add: zero_image_run_def loaded_all_None)
  moreover have "valid_schedule (length files) sched" using assms(2) Some by (simp add: file_count_def)
  ultimately show ?thesis using Some
    by (simp add: parallel_counts wrap32_def wrap64_def area_sum_def)
qed

lemma derive_estimates_est_rates:
  "estimated_cycles_per_image_all_threads (derive_estimates oor m) =
     (if 0 < images_processed m
      then ddiv (double_of_u64 (estimated_total_cycles_all_threads (derive_estimates oor m)))
             (double_of_int (images_processed m)) else 0)"
  "estimated_cycles_per_pixel_all_threads (derive_estimates oor m) =
     (if 0 < total_pixels m
      then ddiv (double_of_u64 (estimated_total_cycles_all_threads (derive_estimates oor m)))
             (double_of_ll (total_pixels m)) else 0)"
  by (simp_all add: derive_estimates_def Let_def)

lemma parallel_est_rates_zero:
  assumes "images_processed (process_directory_parallel oor dir threads sched k) = 0"
      and "total_pixels (process_directory_parallel oor dir threads sched k) = 0"
  shows "estimated_cycles_per_image_all_threads (process_directory_parallel oor dir threads sched k) = 0 \<and>
         estimated_cycles_per_pixel_all_threads (process_directory_parallel oor dir threads sched k) = 0"
proof (cases dir)
  case None
  then show ?thesis by (simp add: process_directory_parallel_def zero_metrics_def)
next
  case (Some files)
  show ?thesis
  proof (cases "files = []")
    case True
    then show ?thesis using Some by (simp add: process_directory_parallel_def zero_metrics_def)
  next
    case False
    obtain tp ip mw mh where red: "omp_parallel_for files sched (0, 0, 0, 0) = (tp, ip, mw, mh)"
      by (cases "omp_parallel_for files sched (0, 0, 0, 0)") auto
    note eq = process_directory_parallel_Some [OF False red, of oor threads k]
    from assms show ?thesis
      unfolding Some eq
      by (simp add: derive_estimates_est_rates derive_estimates_base)
  qed
qed


text \<open>
  Claim C7. After every run of either harness the four derived rates are the
  quotients the specification names when their denominator is positive, and exactly
  0 otherwise: \<open>avg_time_per_image_ms\<close> and \<open>cycles_per_image\<close> over
  \<open>images_processed\<close>, \<open>avg_time_per_pixel_ns\<close> and \<open>cycles_per_pixel\<close> over
  \<open>total_pixels\<close>. In a run in which no image loads every rate is 0, the estimated
  per-image and per-pixel cycles of the parallel harness included. Both harnesses are
  total functions into the metrics: no division is evaluated with a zero divisor.
\<close>

theorem derived_rates_defined:
  "rates_as_specified (process_directory_serial dir k) \<and>
   rates_as_specified (process_directory_parallel oor dir threads sched k') \<and>
   (zero_image_run dir \<longrightarrow>
      avg_time_per_image_ms (process_directory_serial dir k) = 0 \<and>
      avg_time_per_pixel_ns (process_directory_serial dir k) = 0 \<and>
      cycles_per_image (process_directory_serial dir k) = 0 \<and>
      cycles_per_pixel (process_directory_serial dir k) = 0) \<and>
   (zero_image_run dir \<and> valid_schedule (file_count dir) sched \<longrightarrow>
      avg_time_per_image_ms (process_directory_parallel oor dir threads sched k') = 0 \<and>
      avg_time_per_pixel_ns (process_directory_parallel oor dir threads sched k') = 0 \<and>
      cycles_per_image (process_directory_parallel oor dir threads sched k') = 0 \<and>
      cycles_per_pixel (process_directory_parallel oor dir threads sched k') = 0 \<and>
      estimated_cycles_per_image_all_threads (process_directory_parallel oor dir threads sched k') = 0 \<and>
      estimated_cycles_per_pixel_all_threads (process_directory_parallel oor dir threads sched k') = 0)"
proof -
  have s: "rates_as_specified (process_directory_serial dir k)" by (rule serial_rates)
  have p: "rates_as_specified (process_directory_parallel oor dir threads sched k')"
    by (rule parallel_rates)
  have zs: "avg_time_per_image_ms (process_directory_serial dir k) = 0 \<and>
      avg_time_per_pixel_ns (process_directory_serial dir k) = 0 \<and>
      cycles_per_image (process_directory_serial dir k) = 0 \<and>
      cycles_per_pixel (process_directory_serial dir k) = 0" if "zero_image_run dir"
    using s serial_zero_run [OF that, of k] by (simp add: rates_as_specified_def)
  have zp: "avg_time_per_image_ms (process_directory_parallel oor dir threads sched k') = 0 \<and>
      avg_time_per_pixel_ns (process_directory_parallel oor dir threads sched k') = 0 \<and>
      cycles_per_image (process_directory_parallel oor dir threads sched k') = 0 \<and>
      cycles_per_pixel (process_directory_parallel oor dir threads sched k') = 0 \<and>
      estimated_cycles_per_image_all_threads (process_directory_parallel oor dir threads sched k') = 0 \<and>
      estimated_cycles_per_pixel_all_threads (process_directory_parallel oor dir threads sched k') = 0"
    if "zero_image_run dir" "valid_schedule (file_count dir) sched"
  proof -
    note z = parallel_zero_run [OF that, of oor threads k']
    from parallel_est_rates_zero [OF conjunct1 [OF z] conjunct2 [OF z]] p z
    show ?thesis by (simp add: rates_as_specified_def)
  qed
  show ?thesis using s p zs zp by blast
qed

theorem derived_rates_defined_witness:
  "zero_image_run (Some [None, None]) \<and> valid_schedule (file_count (Some [None, None])) [[1], [0]] \<and>
   avg_time_per_image_ms (process_directory_parallel (\<lambda>_. 0) (Some [None, None]) 4 [[1], [0]]
     \<lparr>t_start = 0, t_end = 1, user_before = 0, user_after = 1,
       sys_before = 0, sys_after = 0, c_start = 0, c_end = 1600\<rparr>) = 0 \<and>
   estimated_cycles_per_pixel_all_threads (process_directory_parallel (\<lambda>_. 0) (Some [None, None]) 4 [[1], [0]]
     \<lparr>t_start = 0, t_end = 1, user_before = 0, user_after = 1,
       sys_before = 0, sys_after = 0, c_start = 0, c_end = 1600\<rparr>) = 0 \<and>
   cycles_per_pixel (process_directory_serial (Some [None, None])
     \<lparr>t_start = 0, t_end = 1, user_before = 0, user_after = 1,
       sys_before = 0, sys_after = 0, c_start = 0, c_end = 1600\<rparr>) = 0"
proof -
  have h1: "zero_image_run (Some [None, None])" by (simp add: zero_image_run_def)
  have h2: "valid_schedule (file_count (Some [None, None])) [[1], [0]]" by code_simp
  note t = derived_rates_defined [of "Some [None, None]"
     "\<lparr>t_start = 0, t_end = 1, user_before = 0, user_after = 1,
       sys_before = 0, sys_after = 0, c_start = 0, c_end = 1600\<rparr>" "\<lambda>_. 0" 4 "[[1], [0]]"
     "\<lparr>t_start = 0, t_end = 1, user_before = 0, user_after = 1,
       sys_before = 0, sys_after = 0, c_start = 0, c_end = 1600\<rparr>"]
  from t h1 h2 show ?thesis by blast
qed

section \<open>The comparison\<close>

lemma dbl_17_5: "dbl (17 / 5) = 7656119366529843 / 2251799813685248"
  by code_simp

lemma dbl_17_2: "dbl (17 / 2) = 17 / 2"
  using dbl_half_int [of 17] by simp

lemma dbl_5_2: "dbl (5 / 2) = 5 / 2"
  using dbl_half_int [of 5] by simp

text \<open>
  Claim C8. For a baseline with wall time 10.0, user time 8, system time 1, a million
  pixels and one thread, and a candidate with wall time 2.5, user time 7.0, system
  time 1.5, a million pixels and four threads, the comparison yields a wall-time
  speedup of 4.0, a parallel efficiency of 1.0 and a pixels-per-second speedup of
  4.0, and the candidate's CPU utilization is the double written \<open>3.4\<close>, the
  quotient 8.5 / 2.5 rounded to double precision (within \<open>10^-15\<close> of 3.4). For any
  two runs, the parallel efficiency is the wall-time speedup divided by the
  candidate's thread count when both are positive, and 0 otherwise.
\<close>

theorem comparison_scenario:
  assumes "wall_time_sec sm = 10" and "cpu_user_time_sec sm = 8" and "cpu_system_time_sec sm = 1"
      and "total_pixels sm = 1000000" and "threads_used sm = 1"
      and "wall_time_sec pm = 5 / 2" and "cpu_user_time_sec pm = 7"
      and "cpu_system_time_sec pm = 3 / 2"
      and "total_pixels pm = 1000000" and "threads_used pm = 4"
  shows "speedup_wall_time (compare oor sm pm) = 4 \<and>
         parallel_efficiency (compare oor sm pm) = 1 \<and>
         speedup_pixels_per_sec (compare oor sm pm) = 4 \<and>
         cpu_utilization pm = dbl (34 / 10) \<and>
         \<bar>cpu_utilization pm - 34 / 10\<bar> < 1 / 10 ^ 15 \<and>
         parallel_efficiency (compare oor sm' pm') =
           (if 0 < speedup_wall_time (compare oor sm' pm') \<and> 0 < threads_used pm'
            then ddiv (speedup_wall_time (compare oor sm' pm')) (double_of_int (threads_used pm'))
            else 0)"
proof -
  have w: "speedup_wall_time (compare oor sm pm) = 4"
    by (simp add: assms compare_def Let_def ddiv_def dbl_numeral)
  have e: "parallel_efficiency (compare oor sm pm) = 1"
    by (simp add: assms compare_def Let_def ddiv_def dbl_numeral dbl_one double_of_int_def)
  have pp: "pixels_per_sec sm = 100000" "pixels_per_sec pm = 400000"
    by (simp_all add: assms pixels_per_sec_def ddiv_def double_of_ll_def dbl_numeral)
  have p: "speedup_pixels_per_sec (compare oor sm pm) = 4"
    by (simp add: compare_def Let_def pp ddiv_def dbl_numeral)
  have u: "cpu_utilization pm = dbl (34 / 10)"
    by (simp add: assms cpu_utilization_def Let_def dadd_def ddiv_def dbl_17_2)
  have u': "\<bar>cpu_utilization pm - 34 / 10\<bar> < 1 / 10 ^ 15"
    unfolding u using dbl_17_5 by simp
  have g: "parallel_efficiency (compare oor sm' pm') =
           (if 0 < speedup_wall_time (compare oor sm' pm') \<and> 0 < threads_used pm'
            then ddiv (speedup_wall_time (compare oor sm' pm')) (double_of_int (threads_used pm'))
            else 0)"
    by (simp add: compare_def Let_def)
  from w e p u u' g show ?thesis by blast
qed


theorem comparison_scenario_witness:
  "wall_time_sec (zero_metrics\<lparr>wall_time_sec := 10, cpu_user_time_sec := 8,
       cpu_system_time_sec := 1, total_pixels := 1000000, threads_used := 1\<rparr>) = 10 \<and>
   threads_used (zero_metrics\<lparr>wall_time_sec := 5 / 2, cpu_user_time_sec := 7,
       cpu_system_time_sec := 3 / 2, total_pixels := 1000000, threads_used := 4\<rparr>) = 4 \<and>
   speedup_wall_time (compare (\<lambda>_. 0)
     (zero_metrics\<lparr>wall_time_sec := 10, cpu_user_time_sec := 8,
       cpu_system_time_sec := 1, total_pixels := 1000000, threads_used := 1\<rparr>)
     (zero_metrics\<lparr>wall_time_sec := 5 / 2, cpu_user_time_sec := 7,
       cpu_system_time_sec := 3 / 2, total_pixels := 1000000, threads_used := 4\<rparr>)) = 4 \<and>
   parallel_efficiency (compare (\<lambda>_. 0)
     (zero_metrics\<lparr>wall_time_sec := 10, cpu_user_time_sec := 8,
       cpu_system_time_sec := 1, total_pixels := 1000000, threads_used := 1\<rparr>)
     (zero_metrics\<lparr>wall_time_sec := 5 / 2, cpu_user_time_sec := 7,
       cpu_system_time_sec := 3 / 2, total_pixels := 1000000, threads_used := 4\<rparr>)) = 1"
proof -
  let ?sm = "zero_metrics\<lparr>wall_time_sec := 10, cpu_user_time_sec := 8,
       cpu_system_time_sec := 1, total_pixels := 1000000, threads_used := 1\<rparr>"
  let ?pm = "zero_metrics\<lparr>wall_time_sec := 5 / 2, cpu_user_time_sec := 7,
       cpu_system_time_sec := 3 / 2, total_pixels := 1000000, threads_used := 4\<rparr>"
  have s: "wall_time_sec ?sm = 10" "cpu_user_time_sec ?sm = 8" "cpu_system_time_sec ?sm = 1"
      "total_pixels ?sm = 1000000" "threads_used ?sm = 1"
    by simp_all
  have p: "wall_time_sec ?pm = 5 / 2" "cpu_user_time_sec ?pm = 7" "cpu_system_time_sec ?pm = 3 / 2"
      "total_pixels ?pm = 1000000" "threads_used ?pm = 4"
    by simp_all
  note t = comparison_scenario [OF s p, of "\<lambda>_. 0" ?sm ?pm]
  from t s(1) p(5) show ?thesis by blast
qed

section \<open>The estimate of the cycles of all threads\<close>

lemma u64_of_double_in_range:
  "0 \<le> x \<Longrightarrow> x < 18446744073709551616 \<Longrightarrow> u64_of_double oor x = nat \<lfloor>x\<rfloor>"
  by (simp add: u64_of_double_def trunc_def)

lemma double_of_u64_exact: "n \<le> 2 ^ 53 \<Longrightarrow> double_of_u64 n = of_nat n"
proof -
  assume "n \<le> 2 ^ 53"
  then have "\<bar>int n\<bar> \<le> 2 ^ 53" by (metis abs_of_nat of_nat_le_iff of_nat_numeral of_nat_power)
  from dbl_int [OF this] show ?thesis by (simp add: double_of_u64_def)
qed

lemma estimate_lower_bound:
  assumes wall: "0 < wall" and busy: "wall \<le> cpu_total"
      and small: "cycles \<le> 2 ^ 53"
      and range: "dadd (dmul (double_of_u64 cycles) (ddiv cpu_total wall)) (1 / 2) < 18446744073709551616"
  shows "cycles \<le> estimate_total_cycles oor cycles cpu_total wall"
proof -
  let ?f = "ddiv cpu_total wall"
  let ?e = "dmul (double_of_u64 cycles) ?f"
  have cpu: "0 < cpu_total" using wall busy by simp
  have dc: "double_of_u64 cycles = of_nat cycles" using small by (rule double_of_u64_exact)
  have "1 \<le> cpu_total / wall" using wall busy by simp
  then have f1: "1 \<le> ?f" unfolding ddiv_def by (intro dbl_ge_rep) (simp_all add: dbl_one)
  have e: "real cycles \<le> ?e"
  proof (cases "cycles = 0")
    case True
    then have "double_of_u64 cycles = 0" using dc by simp
    then show ?thesis using True by (simp add: dmul_def dbl_zero)
  next
    case False
    then have pos: "0 < real cycles" by simp
    have fx: "dbl (real cycles) = real cycles" using dc by (simp add: double_of_u64_def)
    have "real cycles \<le> real cycles * ?f" using f1 pos by simp
    then show ?thesis unfolding dmul_def dc by (intro dbl_ge_rep [OF pos fx])
  qed
  then have e0: "\<not> ?e < 0" by (smt (verit) of_nat_0_le_iff)
  have x: "real cycles \<le> dadd ?e (1 / 2)"
  proof (cases "cycles = 0")
    case True
    have "0 \<le> ?e + 1 / 2" using e by simp
    then have "0 \<le> dbl (?e + 1 / 2)" by (rule dbl_nonneg)
    then show ?thesis using True by (simp add: dadd_def)
  next
    case False
    then have pos: "0 < real cycles" by simp
    have fx: "dbl (real cycles) = real cycles" using dc by (simp add: double_of_u64_def)
    have "real cycles \<le> ?e + 1 / 2" using e by simp
    then show ?thesis unfolding dadd_def by (intro dbl_ge_rep [OF pos fx])
  qed
  then have x0: "0 \<le> dadd ?e (1 / 2)" by (smt (verit) of_nat_0_le_iff)
  have "estimate_total_cycles oor cycles cpu_total wall = nat \<lfloor>dadd ?e (1 / 2)\<rfloor>"
    using wall cpu e0 u64_of_double_in_range [OF x0 range]
    by (simp add: estimate_total_cycles_def Let_def)
  moreover have "int cycles \<le> \<lfloor>dadd ?e (1 / 2)\<rfloor>"
    using x by (simp add: le_floor_iff)
  ultimately show ?thesis by simp
qed


lemma derive_estimates_total:
  "estimated_total_cycles_all_threads (derive_estimates oor m) =
     estimate_total_cycles oor (cpu_cycles m)
       (dadd (cpu_user_time_sec m) (cpu_system_time_sec m)) (wall_time_sec m)"
  by (simp add: derive_estimates_def Let_def)

text \<open>
  Claim C9, as amended. For every metrics record with positive \<open>wall_time_sec\<close> whose
  \<open>cpu_total_time_sec\<close> (the double sum of user and system time) is at least
  \<open>wall_time_sec\<close>, the derived \<open>estimated_total_cycles_all_threads\<close> is at least
  \<open>cpu_cycles\<close>, provided that \<open>cpu_cycles\<close> is at most \<open>2^53\<close> (so that its conversion to
  \<open>double\<close> is exact) and that the rounded value of \<open>cpu_cycles * factor + 0.5\<close> is
  below \<open>2^64\<close> (so that its conversion to \<open>uint64_t\<close> is defined).
\<close>

theorem estimate_at_least_cycles:
  assumes "0 < wall_time_sec m"
      and "wall_time_sec m \<le> dadd (cpu_user_time_sec m) (cpu_system_time_sec m)"
      and "cpu_cycles m \<le> 2 ^ 53"
      and "dadd (dmul (double_of_u64 (cpu_cycles m))
                   (ddiv (dadd (cpu_user_time_sec m) (cpu_system_time_sec m)) (wall_time_sec m)))
             (1 / 2) < 2 ^ 64"
  shows "cpu_cycles m \<le> estimated_total_cycles_all_threads (derive_estimates oor m)"
  unfolding derive_estimates_total
  using assms by (intro estimate_lower_bound) simp_all

text \<open>
  Without the bound on \<open>cpu_cycles\<close> the claim fails: a cycle count of \<open>2^53 + 1\<close>
  with user time equal to wall time converts to the double \<open>2^53\<close>, the factor is 1,
  and adding 0.5 rounds back to \<open>2^53\<close>, one less than \<open>cpu_cycles\<close>.
\<close>

lemma dbl_2_53_1: "dbl 9007199254740993 = 9007199254740992"
  by code_simp

lemma dbl_2_53_half: "dbl (18014398509481985 / 2) = 9007199254740992"
  by code_simp

theorem estimate_at_least_cycles_counterexample:
  "0 < wall_time_sec (zero_metrics\<lparr>wall_time_sec := 1, cpu_user_time_sec := 1,
         cpu_system_time_sec := 0, cpu_cycles := 9007199254740993\<rparr>) \<and>
   wall_time_sec (zero_metrics\<lparr>wall_time_sec := 1, cpu_user_time_sec := 1,
         cpu_system_time_sec := 0, cpu_cycles := 9007199254740993\<rparr>)
     \<le> cpu_user_time_sec (zero_metrics\<lparr>wall_time_sec := 1, cpu_user_time_sec := 1,
         cpu_system_time_sec := 0, cpu_cycles := 9007199254740993\<rparr>)
       + cpu_system_time_sec (zero_metrics\<lparr>wall_time_sec := 1, cpu_user_time_sec := 1,
         cpu_system_time_sec := 0, cpu_cycles := 9007199254740993\<rparr>) \<and>
   estimated_total_cycles_all_threads (derive_estimates (\<lambda>_. 0)
      (zero_metrics\<lparr>wall_time_sec := 1, cpu_user_time_sec := 1,
         cpu_system_time_sec := 0, cpu_cycles := 9007199254740993\<rparr>)) = 9007199254740992 \<and>
   \<not> cpu_cycles (zero_metrics\<lparr>wall_time_sec := 1, cpu_user_time_sec := 1,
         cpu_system_time_sec := 0, cpu_cycles := 9007199254740993\<rparr>)
      \<le> estimated_total_cycles_all_threads (derive_estimates (\<lambda>_. 0)
      (zero_metrics\<lparr>wall_time_sec := 1, cpu_user_time_sec := 1,
         cpu_system_time_sec := 0, cpu_cycles := 9007199254740993\<rparr>))"
  by (simp add: derive_estimates_total estimate_total_cycles_def Let_def dadd_def dmul_def ddiv_def
      double_of_u64_def dbl_one dbl_numeral dbl_2_53_1 dbl_2_53_half u64_of_double_def trunc_def)

theorem estimate_at_least_cycles_witness:
  "0 < wall_time_sec (zero_metrics\<lparr>wall_time_sec := 1, cpu_user_time_sec := 2,
         cpu_system_time_sec := 1, cpu_cycles := 1000\<rparr>) \<and>
   cpu_cycles (zero_metrics\<lparr>wall_time_sec := 1, cpu_user_time_sec := 2,
         cpu_system_time_sec := 1, cpu_cycles := 1000\<rparr>) \<le> 2 ^ 53 \<and>
   cpu_cycles (zero_metrics\<lparr>wall_time_sec := 1, cpu_user_time_sec := 2,
         cpu_system_time_sec := 1, cpu_cycles := 1000\<rparr>)
     \<le> estimated_total_cycles_all_threads (derive_estimates (\<lambda>_. 0)
         (zero_metrics\<lparr>wall_time_sec := 1, cpu_user_time_sec := 2,
           cpu_system_time_sec := 1, cpu_cycles := 1000\<rparr>))"
proof -
  let ?m = "zero_metrics\<lparr>wall_time_sec := 1, cpu_user_time_sec := 2,
         cpu_system_time_sec := 1, cpu_cycles := 1000\<rparr>"
  have h1: "0 < wall_time_sec ?m" by simp
  have h2: "wall_time_sec ?m \<le> dadd (cpu_user_time_sec ?m) (cpu_system_time_sec ?m)"
    by (simp add: dadd_def dbl_numeral)
  have h3: "cpu_cycles ?m \<le> 2 ^ 53" by simp
  have "dbl (6001 / 2) = 6001 / 2" using dbl_half_int [of 6001] by simp
  then have h4: "dadd (dmul (double_of_u64 (cpu_cycles ?m))
                   (ddiv (dadd (cpu_user_time_sec ?m) (cpu_system_time_sec ?m)) (wall_time_sec ?m)))
             (1 / 2) < 2 ^ 64"
    by (simp add: dadd_def dmul_def ddiv_def double_of_u64_def dbl_numeral)
  from estimate_at_least_cycles [OF h1 h2 h3 h4, of "\<lambda>_. 0"] h1 h3 show ?thesis by blast
qed

section \<open>Loops that store into a buffer\<close>

lemma bindf_Inr [simp]: "bindf (Inr v) k = k v"
  by (simp add: bindf_def)

lemma bindf_Inl [simp]: "bindf (Inl e) k = Inl e"
  by (simp add: bindf_def)

lemma for_loop_append:
  "for_loop (xs @ ys) body s = bindf (for_loop xs body s) (for_loop ys body)"
  by (induction xs arbitrary: s) (simp_all add: bindf_def split: sum.split)

lemma for_loop_map: "for_loop (map g xs) body s = for_loop xs (\<lambda>i. body (g i)) s"
  by (induction xs arbitrary: s) (simp_all add: bindf_def split: sum.split)

lemma for_loop_cong:
  "(\<And>i s. i \<in> set xs \<Longrightarrow> body i s = body' i s) \<Longrightarrow> for_loop xs body s = for_loop xs body' s"
  by (induction xs arbitrary: s) (simp_all add: bindf_def split: sum.split)

lemma for_loop_product:
  "for_loop ys (\<lambda>y. for_loop xs (body y)) s = for_loop (List.product ys xs) (\<lambda>(y, x). body y x) s"
proof (induction ys arbitrary: s)
  case Nil
  then show ?case by simp
next
  case (Cons y ys)
  have "for_loop (List.product (y # ys) xs) (\<lambda>(y, x). body y x) s
        = bindf (for_loop (map (Pair y) xs) (\<lambda>(y, x). body y x) s)
                (for_loop (List.product ys xs) (\<lambda>(y, x). body y x))"
    by (simp add: for_loop_append)
  also have "for_loop (map (Pair y) xs) (\<lambda>(y, x). body y x) s = for_loop xs (body y) s"
    by (simp add: for_loop_map)
  finally show ?case using Cons.IH by (simp add: bindf_def split: sum.split)
qed

text \<open>A loop whose body stores one cell per index, the cells being distinct.\<close>

lemma loop_store1:
  assumes body: "\<And>i s. i \<in> set xs \<Longrightarrow> length s = length s0 \<Longrightarrow> body i s = store1 s (pos i) (F i)"
      and rng: "\<And>i. i \<in> set xs \<Longrightarrow> 0 \<le> pos i \<and> nat (pos i) < length s0"
      and inj: "inj_on pos (set xs)" and dist: "distinct xs"
  shows "\<exists>s'. for_loop xs body s0 = Inr s' \<and> length s' = length s0 \<and>
           (\<forall>i \<in> set xs. s' ! nat (pos i) = F i) \<and>
           (\<forall>p. p \<notin> (\<lambda>i. nat (pos i)) ` set xs \<longrightarrow> s' ! p = s0 ! p)"
  using assms
proof (induction xs arbitrary: s0)
  case Nil
  then show ?case by simp
next
  case (Cons i xs)
  let ?s1 = "s0[nat (pos i) := F i]"
  have r: "0 \<le> pos i" "nat (pos i) < length s0" using Cons.prems(2) [of i] by simp_all
  have step: "body i s0 = Inr ?s1"
    using Cons.prems(1) [of i s0] r by (simp add: store1_def)
  have len: "length ?s1 = length s0" by simp
  have IH: "\<exists>s'. for_loop xs body ?s1 = Inr s' \<and> length s' = length ?s1 \<and>
           (\<forall>j \<in> set xs. s' ! nat (pos j) = F j) \<and>
           (\<forall>p. p \<notin> (\<lambda>j. nat (pos j)) ` set xs \<longrightarrow> s' ! p = ?s1 ! p)"
  proof (rule Cons.IH)
    show "body j s = store1 s (pos j) (F j)" if "j \<in> set xs" "length s = length ?s1" for j s
      using Cons.prems(1) [of j s] that by simp
    show "0 \<le> pos j \<and> nat (pos j) < length ?s1" if "j \<in> set xs" for j
      using Cons.prems(2) [of j] that by simp
    show "inj_on pos (set xs)" using Cons.prems(3) by (simp add: inj_on_def)
    show "distinct xs" using Cons.prems(4) by simp
  qed
  then obtain s' where s': "for_loop xs body ?s1 = Inr s'" "length s' = length s0"
      "\<forall>j \<in> set xs. s' ! nat (pos j) = F j"
      "\<forall>p. p \<notin> (\<lambda>j. nat (pos j)) ` set xs \<longrightarrow> s' ! p = ?s1 ! p"
    by auto
  have notin: "nat (pos i) \<notin> (\<lambda>j. nat (pos j)) ` set xs"
  proof
    assume "nat (pos i) \<in> (\<lambda>j. nat (pos j)) ` set xs"
    then obtain j where j: "j \<in> set xs" "nat (pos i) = nat (pos j)" by auto
    have "0 \<le> pos j" using Cons.prems(2) [of j] j by simp
    then have "pos i = pos j" using j(2) r(1) by simp
    then have "i = j" using Cons.prems(3) j(1) by (simp add: inj_on_def)
    then show False using Cons.prems(4) j(1) by simp
  qed
  have "s' ! nat (pos i) = F i" using s'(4) notin r by simp
  moreover have "s' ! p = s0 ! p" if "p \<notin> (\<lambda>j. nat (pos j)) ` set (i # xs)" for p
    using s'(4) that by simp
  ultimately show ?case using step s' by simp
qed

lemma store3_Inr:
  "0 \<le> idx \<Longrightarrow> nat idx + 2 < length buf \<Longrightarrow>
   store3 buf idx (a, b, c) = Inr (buf[nat idx := a, nat idx + 1 := b, nat idx + 2 := c])"
  by (simp add: store3_def)

lemma nth_update3:
  assumes "n + 2 < length buf"
  shows "buf[n := a, n + 1 := b, n + 2 := c] ! p =
           (if p = n then a else if p = n + 1 then b else if p = n + 2 then c else buf ! p)"
  using assms by (simp add: nth_list_update)

text \<open>A loop whose body stores one block of three bytes per index, the blocks
  being disjoint; the body may read its own block.\<close>

lemma loop_store3:
  assumes body: "\<And>i s. i \<in> set xs \<Longrightarrow> length s = length s0 \<Longrightarrow>
                   (\<forall>j<3. s ! (nat (pos i) + j) = s0 ! (nat (pos i) + j)) \<Longrightarrow>
                   body i s = store3 s (pos i) (F i)"
      and rng: "\<And>i. i \<in> set xs \<Longrightarrow> 0 \<le> pos i \<and> nat (pos i) + 2 < length s0"
      and sep: "\<And>i j. i \<in> set xs \<Longrightarrow> j \<in> set xs \<Longrightarrow> i \<noteq> j \<Longrightarrow>
                  pos i + 3 \<le> pos j \<or> pos j + 3 \<le> pos i"
      and dist: "distinct xs"
  shows "\<exists>s'. for_loop xs body s0 = Inr s' \<and> length s' = length s0 \<and>
           (\<forall>i \<in> set xs. (s' ! nat (pos i), s' ! (nat (pos i) + 1), s' ! (nat (pos i) + 2)) = F i) \<and>
           (\<forall>p. (\<forall>i \<in> set xs. p < nat (pos i) \<or> nat (pos i) + 2 < p) \<longrightarrow> s' ! p = s0 ! p)"
  using assms
proof (induction xs arbitrary: s0)
  case Nil
  then show ?case by simp
next
  case (Cons i xs)
  obtain a b c where F: "F i = (a, b, c)" by (cases "F i")
  let ?n = "nat (pos i)"
  let ?s1 = "s0[?n := a, ?n + 1 := b, ?n + 2 := c]"
  have r: "0 \<le> pos i" "?n + 2 < length s0" using Cons.prems(2) [of i] by simp_all
  have step: "body i s0 = Inr ?s1"
    using Cons.prems(1) [of i s0] r F by (simp add: store3_Inr)
  have len: "length ?s1 = length s0" by simp
  have other: "?s1 ! (nat (pos k) + j) = s0 ! (nat (pos k) + j)" if "k \<in> set xs" "j < 3" for k j
  proof -
    have "k \<noteq> i" using that(1) Cons.prems(4) by auto
    then have "pos i + 3 \<le> pos k \<or> pos k + 3 \<le> pos i"
      using Cons.prems(3) [of i k] that(1) by simp
    moreover have "0 \<le> pos k" using Cons.prems(2) [of k] that(1) by simp
    ultimately have "nat (pos k) + j \<noteq> ?n \<and> nat (pos k) + j \<noteq> ?n + 1 \<and> nat (pos k) + j \<noteq> ?n + 2"
      using r(1) that(2) by auto
    then show ?thesis using r(2) by (simp add: nth_update3)
  qed
  have IH: "\<exists>s'. for_loop xs body ?s1 = Inr s' \<and> length s' = length ?s1 \<and>
           (\<forall>k \<in> set xs. (s' ! nat (pos k), s' ! (nat (pos k) + 1), s' ! (nat (pos k) + 2)) = F k) \<and>
           (\<forall>p. (\<forall>k \<in> set xs. p < nat (pos k) \<or> nat (pos k) + 2 < p) \<longrightarrow> s' ! p = ?s1 ! p)"
  proof (rule Cons.IH)
    show "body k s = store3 s (pos k) (F k)"
      if "k \<in> set xs" "length s = length ?s1" "\<forall>j<3. s ! (nat (pos k) + j) = ?s1 ! (nat (pos k) + j)"
      for k s
      using Cons.prems(1) [of k s] that other [OF that(1)] by simp
    show "0 \<le> pos k \<and> nat (pos k) + 2 < length ?s1" if "k \<in> set xs" for k
      using Cons.prems(2) [of k] that by simp
    show "pos k + 3 \<le> pos j \<or> pos j + 3 \<le> pos k" if "k \<in> set xs" "j \<in> set xs" "k \<noteq> j" for k j
      using Cons.prems(3) [of k j] that by simp
    show "distinct xs" using Cons.prems(4) by simp
  qed
  then obtain s' where s': "for_loop xs body ?s1 = Inr s'" "length s' = length s0"
      "\<forall>k \<in> set xs. (s' ! nat (pos k), s' ! (nat (pos k) + 1), s' ! (nat (pos k) + 2)) = F k"
      "\<forall>p. (\<forall>k \<in> set xs. p < nat (pos k) \<or> nat (pos k) + 2 < p) \<longrightarrow> s' ! p = ?s1 ! p"
    by auto
  have away: "\<forall>k \<in> set xs. ?n + j < nat (pos k) \<or> nat (pos k) + 2 < ?n + j" if "j < 3" for j
  proof
    fix k assume k: "k \<in> set xs"
    have "k \<noteq> i" using k Cons.prems(4) by auto
    then have "pos i + 3 \<le> pos k \<or> pos k + 3 \<le> pos i"
      using Cons.prems(3) [of i k] k by simp
    moreover have "0 \<le> pos k" using Cons.prems(2) [of k] k by simp
    ultimately show "?n + j < nat (pos k) \<or> nat (pos k) + 2 < ?n + j"
      using r(1) that by auto
  qed
  have "s' ! (?n + j) = ?s1 ! (?n + j)" if "j < 3" for j
    using s'(4) away [OF that] by blast
  from this [of 0] this [of 1] this [of 2]
  have blk: "(s' ! ?n, s' ! (?n + 1), s' ! (?n + 2)) = F i"
    using r(2) F by (simp add: nth_update3)
  have rest: "s' ! p = s0 ! p" if "\<forall>k \<in> set (i # xs). p < nat (pos k) \<or> nat (pos k) + 2 < p" for p
  proof -
    have "s' ! p = ?s1 ! p" using s'(4) that by simp
    moreover have "p < ?n \<or> ?n + 2 < p" using that by simp
    ultimately show ?thesis using r(2) by (auto simp add: nth_update3)
  qed
  show ?case using step s'(1,2,3) blk rest by simp
qed

lemma dbl_abs_error:
  assumes "0 \<le> x" and "x \<le> B"
  shows "\<bar>dbl x - x\<bar> \<le> B / 9007199254740992"
proof (cases "x = 0")
  case True
  then show ?thesis using assms by (simp add: dbl_zero)
next
  case False
  then have "0 < x" using assms by simp
  from dbl_rel_error [OF this] have "\<bar>dbl x - x\<bar> \<le> x / 9007199254740992" by simp
  also have "\<dots> \<le> B / 9007199254740992" using assms by (simp add: divide_right_mono)
  finally show ?thesis .
qed

lemma weight_error:
  assumes "0 \<le> q" and "q \<le> 1" and "0 \<le> v" and "v \<le> 255"
  shows "\<bar>dbl (dbl q * v) - q * v\<bar> \<le> 511 / 9007199254740992" and "0 \<le> dbl (dbl q * v)"
proof -
  have c: "\<bar>dbl q - q\<bar> \<le> 1 / 9007199254740992" using dbl_abs_error [OF assms(1,2)] .
  have c0: "0 \<le> dbl q" using assms(1) by (rule dbl_nonneg)
  have "\<bar>dbl q * v - q * v\<bar> = \<bar>dbl q - q\<bar> * v"
    using assms(3) by (simp add: abs_mult left_diff_distrib [symmetric])
  also have "\<dots> \<le> (1 / 9007199254740992) * 255"
    using c assms(3,4) by (intro mult_mono) simp_all
  finally have p: "\<bar>dbl q * v - q * v\<bar> \<le> 255 / 9007199254740992" by simp
  have qv: "q * v \<le> 255" using assms mult_mono [of q 1 v 255] by simp
  have nn: "0 \<le> dbl q * v" using c0 assms(3) by simp
  have "dbl q * v \<le> 256" using p qv by linarith
  from dbl_abs_error [OF nn this] have "\<bar>dbl (dbl q * v) - dbl q * v\<bar> \<le> 256 / 9007199254740992" .
  with p show "\<bar>dbl (dbl q * v) - q * v\<bar> \<le> 511 / 9007199254740992" by linarith
  show "0 \<le> dbl (dbl q * v)" using nn by (rule dbl_nonneg)
qed

lemma byte_range: "0 \<le> double_of_byte b" "double_of_byte b \<le> 255"
proof -
  have "unat b < 256" using unsigned_less [of b, where 'a = nat] by simp
  then have "unat b \<le> 255" by simp
  then have "real (unat b) \<le> 255" by (metis of_nat_le_iff of_nat_numeral)
  then show "double_of_byte b \<le> 255" by (simp only: double_of_byte_def)
  show "0 \<le> double_of_byte b" by (simp only: double_of_byte_def of_nat_0_le_iff)
qed

lemma five_errors:
  fixes t1 t2 t3 s1 s2 a1 a2 a3 e d :: real
  assumes "\<bar>t1 - a1\<bar> \<le> e" and "\<bar>t2 - a2\<bar> \<le> e" and "\<bar>t3 - a3\<bar> \<le> e"
      and "\<bar>s1 - (t1 + t2)\<bar> \<le> d" and "\<bar>s2 - (s1 + t3)\<bar> \<le> d"
  shows "\<bar>s2 - (a1 + a2 + a3)\<bar> \<le> 3 * e + 2 * d"
  using assms by linarith

lemma luminance_double_error:
  "\<bar>luminance_double r g b - exact_luminance r g b\<bar> \<le> 2045 / 9007199254740992"
  and luminance_double_nonneg: "0 \<le> luminance_double r g b"
proof -
  let ?R = "double_of_byte r" and ?G = "double_of_byte g" and ?B = "double_of_byte b"
  let ?t1 = "dbl (dbl (299 / 1000) * ?R)"
  let ?t2 = "dbl (dbl (587 / 1000) * ?G)"
  let ?t3 = "dbl (dbl (114 / 1000) * ?B)"
  note R = byte_range [of r] and G = byte_range [of g] and B = byte_range [of b]
  have e1: "\<bar>?t1 - 299 / 1000 * ?R\<bar> \<le> 511 / 9007199254740992" and n1: "0 \<le> ?t1"
    using weight_error [of "299 / 1000" ?R] R by simp_all
  have e2: "\<bar>?t2 - 587 / 1000 * ?G\<bar> \<le> 511 / 9007199254740992" and n2: "0 \<le> ?t2"
    using weight_error [of "587 / 1000" ?G] G by simp_all
  have e3: "\<bar>?t3 - 114 / 1000 * ?B\<bar> \<le> 511 / 9007199254740992" and n3: "0 \<le> ?t3"
    using weight_error [of "114 / 1000" ?B] B by simp_all
  have b12: "?t1 + ?t2 \<le> 256" using e1 e2 R G by linarith
  have n12: "0 \<le> ?t1 + ?t2" using n1 n2 by simp
  from dbl_abs_error [OF n12 b12]
  have e12: "\<bar>dbl (?t1 + ?t2) - (?t1 + ?t2)\<bar> \<le> 256 / 9007199254740992" .
  have ns1: "0 \<le> dbl (?t1 + ?t2)" using n12 by (rule dbl_nonneg)
  have b123: "dbl (?t1 + ?t2) + ?t3 \<le> 256" using e12 e1 e2 e3 R G B by linarith
  have n123: "0 \<le> dbl (?t1 + ?t2) + ?t3" using ns1 n3 by simp
  from dbl_abs_error [OF n123 b123]
  have e123: "\<bar>dbl (dbl (?t1 + ?t2) + ?t3) - (dbl (?t1 + ?t2) + ?t3)\<bar> \<le> 256 / 9007199254740992" .
  have L: "luminance_double r g b = dbl (dbl (?t1 + ?t2) + ?t3)"
    by (simp add: luminance_double_def dadd_def dmul_def c299_def c587_def c114_def)
  have bound: "\<bar>dbl (dbl (?t1 + ?t2) + ?t3)
           - (299 / 1000 * ?R + 587 / 1000 * ?G + 114 / 1000 * ?B)\<bar>
        \<le> 3 * (511 / 9007199254740992) + 2 * (256 / 9007199254740992)"
    using e1 e2 e3 e12 e123 by (rule five_errors)
  have eqA: "(299 * ?R + 587 * ?G + 114 * ?B) / 1000
       = 299 / 1000 * ?R + 587 / 1000 * ?G + 114 / 1000 * ?B"
    by (simp add: field_simps)
  have c: "(2045::real) / 9007199254740992
       = 3 * (511 / 9007199254740992) + 2 * (256 / 9007199254740992)"
    by simp
  show "\<bar>luminance_double r g b - exact_luminance r g b\<bar> \<le> 2045 / 9007199254740992"
    by (simp only: L exact_luminance_def eqA c bound)
  show "0 \<le> luminance_double r g b" unfolding L using n123 by (rule dbl_nonneg)
qed

lemma luminance_111: "luminance 1 1 1 = 0"
  by code_simp

lemma luminance_777: "luminance 7 7 7 = 7"
  by code_simp

lemma luminance_000: "luminance 0 0 0 = 0"
  by code_simp

lemma gray_111: "apply_grayscale \<lparr>width = 1, height = 1, channels = 3, data = Some [1, 1, 1]\<rparr>
   = Inr \<lparr>width = 1, height = 1, channels = 3, data = Some [0, 0, 0]\<rparr>"
  by (simp add: apply_grayscale_def gray_pixel_def load3_def store3_def mul32_def wrap32_def
      luminance_111 Let_def)

lemma double_of_byte_uint: "double_of_byte b = of_int (uint b)"
  by (simp add: double_of_byte_def)

lemma exact_luminance_floor: "\<lfloor>exact_luminance r g b\<rfloor> = luminance_floor r g b"
proof -
  have "exact_luminance r g b = of_int (299 * uint r + 587 * uint g + 114 * uint b) / of_int 1000"
    by (simp add: exact_luminance_def double_of_byte_uint)
  then show ?thesis unfolding luminance_floor_def by (simp only: floor_divide_of_int_eq)
qed

lemma luminance_double_floor:
  "luminance_floor r g b - 1 \<le> \<lfloor>luminance_double r g b\<rfloor>"
  "\<lfloor>luminance_double r g b\<rfloor> \<le> luminance_floor r g b"
proof -
  let ?N = "299 * uint r + 587 * uint g + 114 * uint b"
  let ?q = "luminance_floor r g b"
  let ?L = "luminance_double r g b"
  have ex: "exact_luminance r g b = of_int ?N / 1000"
    by (simp add: exact_luminance_def double_of_byte_uint)
  have N: "?N = 1000 * ?q + ?N mod 1000" by (simp add: luminance_floor_def)
  have m: "0 \<le> ?N mod 1000" "?N mod 1000 \<le> 999" by simp_all
  have "1000 * ?q \<le> ?N" "?N \<le> 1000 * ?q + 999" using N m by linarith+
  then have "1000 * real_of_int ?q \<le> real_of_int ?N" "real_of_int ?N \<le> 1000 * real_of_int ?q + 999"
    by (metis of_int_le_iff of_int_mult of_int_numeral, metis of_int_le_iff of_int_mult of_int_add of_int_numeral)
  then have lo: "real_of_int ?q \<le> exact_luminance r g b"
    and hi: "exact_luminance r g b \<le> real_of_int ?q + 999 / 1000"
    unfolding ex by (simp_all add: field_simps)
  note e = luminance_double_error [of r g b, unfolded abs_le_iff]
  have "?L < real_of_int ?q + 1" using e [THEN conjunct1] hi by linarith
  then have "?L < real_of_int (?q + 1)" by simp
  then have "\<lfloor>?L\<rfloor> < ?q + 1" by (simp only: floor_less_iff)
  then show "\<lfloor>?L\<rfloor> \<le> ?q" by simp
  have "real_of_int ?q - 1 \<le> ?L" using e [THEN conjunct2] lo by linarith
  then have "real_of_int (?q - 1) \<le> ?L" by simp
  then show "?q - 1 \<le> \<lfloor>?L\<rfloor>" by (simp only: le_floor_iff)
qed

lemma uint_byte_range: "0 \<le> uint (b::byte)" "uint (b::byte) \<le> 255"
proof -
  have "uint b < 2 ^ LENGTH(8)" by (rule uint_lt2p)
  then show "uint b \<le> 255" by simp
  show "0 \<le> uint b" by simp
qed

lemma luminance_floor_range: "0 \<le> luminance_floor r g b" "luminance_floor r g b \<le> 255"
proof -
  note R = uint_byte_range [of r] and G = uint_byte_range [of g] and B = uint_byte_range [of b]
  have "0 \<le> 299 * uint r + 587 * uint g + 114 * uint b" using R G B by linarith
  then show "0 \<le> luminance_floor r g b" by (simp add: luminance_floor_def pos_imp_zdiv_nonneg_iff)
  have "299 * uint r + 587 * uint g + 114 * uint b \<le> 255000" using R G B by linarith
  then have "(299 * uint r + 587 * uint g + 114 * uint b) div 1000 \<le> 255000 div 1000"
    by (intro zdiv_mono1) simp_all
  then show "luminance_floor r g b \<le> 255" by (simp add: luminance_floor_def)
qed

lemma luminance_double_range: "0 \<le> luminance_double r g b" "luminance_double r g b < 256"
proof -
  show "0 \<le> luminance_double r g b" by (rule luminance_double_nonneg)
  have "\<lfloor>luminance_double r g b\<rfloor> \<le> 255"
    using luminance_double_floor(2) [of r g b] luminance_floor_range(2) [of r g b] by linarith
  then have "\<lfloor>luminance_double r g b\<rfloor> < 256" by simp
  then show "luminance_double r g b < 256" by (simp only: floor_less_iff of_int_numeral)
qed

lemma uint_luminance: "uint (luminance r g b) = \<lfloor>luminance_double r g b\<rfloor>"
proof -
  let ?k = "\<lfloor>luminance_double r g b\<rfloor>"
  have nn: "0 \<le> ?k" using luminance_double_nonneg [of r g b] by simp
  have lt: "?k < 256"
    using luminance_double_floor(2) [of r g b] luminance_floor_range(2) [of r g b] by linarith
  have "luminance r g b = word_of_int ?k"
    using luminance_double_nonneg [of r g b] by (simp add: luminance_def byte_of_double_def trunc_def)
  moreover have "uint (word_of_int ?k :: byte) = ?k"
    using nn lt by (simp add: uint_word_of_int take_bit_eq_mod)
  ultimately show ?thesis by simp
qed

lemma luminance_within_one:
  "luminance_floor r g b - 1 \<le> uint (luminance r g b)" "uint (luminance r g b) \<le> luminance_floor r g b"
  using luminance_double_floor [of r g b] by (simp_all add: uint_luminance)

lemma wrap32_id: "INT_MIN \<le> i \<Longrightarrow> i \<le> INT_MAX \<Longrightarrow> wrap32 i = i"
  by (simp add: wrap32_def INT_MIN_def INT_MAX_def)

lemma mul32_index:
  assumes "0 \<le> i" and "i < n" and "0 \<le> c" and "n * c \<le> INT_MAX"
  shows "mul32 i c = i * c"
proof -
  have "i * c \<le> n * c" using assms by (intro mult_right_mono) simp_all
  moreover have "0 \<le> i * c" using assms by simp
  ultimately show ?thesis using assms(4) by (simp add: mul32_def wrap32_id INT_MIN_def)
qed

lemma block_in_range:
  assumes "0 \<le> i" and "i < n" and "3 \<le> c" and "int L = n * c"
  shows "0 \<le> i * c" and "nat (i * c) + 2 < L"
proof -
  show nn: "0 \<le> i * c" using assms by simp
  have "(i + 1) * c \<le> n * c" using assms by (intro mult_right_mono) simp_all
  then have "i * c + 3 \<le> n * c" using assms(3) by (simp add: algebra_simps)
  then have "i * c + 2 < int L" using assms(4) by simp
  then show "nat (i * c) + 2 < L" using nn by linarith
qed

lemma block_sep:
  assumes "3 \<le> (c::int)" and "i \<noteq> j"
  shows "i * c + 3 \<le> j * c \<or> j * c + 3 \<le> i * c"
proof (cases "i < j")
  case True
  then have "(i + 1) * c \<le> j * c" using assms by (intro mult_right_mono) simp_all
  then show ?thesis using assms(1) by (simp add: algebra_simps)
next
  case False
  then have "j < i" using assms(2) by simp
  then have "(j + 1) * c \<le> i * c" using assms by (intro mult_right_mono) simp_all
  then show ?thesis using assms(1) by (simp add: algebra_simps)
qed

lemma upto_mem: "i \<in> set [0 .. n - 1] \<longleftrightarrow> 0 \<le> i \<and> i < (n::int)"
  by auto

section \<open>Grayscale\<close>

lemma load3_Inr:
  "0 \<le> idx \<Longrightarrow> nat idx + 2 < length buf \<Longrightarrow>
   load3 buf idx = Inr (buf ! nat idx, buf ! (nat idx + 1), buf ! (nat idx + 2))"
  by (simp add: load3_def)

lemma valid_image_pixels:
  assumes "valid_image img px" and "3 \<le> channels img"
  shows "mul32 (width img) (height img) = width img * height img"
    and "0 \<le> width img * height img"
proof -
  let ?n = "width img * height img"
  have w: "0 \<le> width img" and h: "0 \<le> height img"
    and m: "?n * channels img \<le> INT_MAX"
    using assms(1) by (simp_all add: valid_image_def)
  show nn: "0 \<le> ?n" using w h by simp
  have "?n * 1 \<le> ?n * channels img" using nn assms(2) by (intro mult_left_mono) simp_all
  then have "?n \<le> INT_MAX" using m by simp
  then show "mul32 (width img) (height img) = ?n"
    using nn by (simp add: mul32_def wrap32_id INT_MIN_def)
qed

lemma gray_loop:
  assumes len: "int (length px) = n * c" and c: "3 \<le> c" and m: "n * c \<le> INT_MAX"
  shows "\<exists>px'. for_loop [0 .. n - 1] (gray_pixel c) px = Inr px' \<and> length px' = length px \<and>
           (\<forall>i \<in> set [0 .. n - 1].
              (px' ! nat (i * c), px' ! (nat (i * c) + 1), px' ! (nat (i * c) + 2)) =
              (let v = luminance (px ! nat (i * c)) (px ! (nat (i * c) + 1)) (px ! (nat (i * c) + 2))
               in (v, v, v))) \<and>
           (\<forall>p. (\<forall>i \<in> set [0 .. n - 1]. p < nat (i * c) \<or> nat (i * c) + 2 < p) \<longrightarrow> px' ! p = px ! p)"
proof (rule loop_store3)
  fix i s
  assume i: "i \<in> set [0 .. n - 1]" and l: "length s = length px"
    and blk: "\<forall>j<3. s ! (nat (i * c) + j) = px ! (nat (i * c) + j)"
  have i': "0 \<le> i" "i < n" using i by auto
  have idx: "mul32 i c = i * c" using i' c m by (intro mul32_index [of i n c]) simp_all
  have r: "0 \<le> i * c" "nat (i * c) + 2 < length s"
    using block_in_range [OF i' c len] l by simp_all
  have b: "s ! nat (i * c) = px ! nat (i * c)" "s ! (nat (i * c) + 1) = px ! (nat (i * c) + 1)"
    "s ! (nat (i * c) + 2) = px ! (nat (i * c) + 2)"
    using blk [rule_format, of 0] blk [rule_format, of 1] blk [rule_format, of 2] by simp_all
  show "gray_pixel c i s = store3 s (i * c)
          (let v = luminance (px ! nat (i * c)) (px ! (nat (i * c) + 1)) (px ! (nat (i * c) + 2))
           in (v, v, v))"
    using b by (simp add: gray_pixel_def idx load3_Inr [OF r] Let_def)
next
  fix i assume i: "i \<in> set [0 .. n - 1]"
  then have i': "0 \<le> i" "i < n" by auto
  show "0 \<le> i * c \<and> nat (i * c) + 2 < length px"
    using block_in_range [OF i' c len] by simp
next
  fix i j :: int assume "i \<noteq> j"
  then show "i * c + 3 \<le> j * c \<or> j * c + 3 \<le> i * c" by (rule block_sep [OF c])
next
  show "distinct [0 .. n - 1]" by simp
qed

text \<open>
  Claim C3, as amended. For every image with at least three channels whose buffer
  holds \<open>width * height * channels\<close> bytes, \<open>apply_grayscale\<close> returns without a fault
  and afterwards every pixel has \<open>R = G = B\<close>; the common value is the integer
  truncation of the double-precision value of \<open>0.299 * R0 + 0.587 * G0 + 0.114 * B0\<close>
  on the pixel's values before the call, and it is either the truncation of the exact
  weighted sum or one less.
\<close>

theorem grayscale_within_rounding:
  assumes "valid_image img px" and "3 \<le> channels img"
  shows "\<exists>px'. apply_grayscale img = Inr (img\<lparr>data := Some px'\<rparr>) \<and> length px' = length px \<and>
           (\<forall>i. 0 \<le> i \<and> i < width img * height img \<longrightarrow>
              (let p = nat (i * channels img);
                   r = px ! p; g = px ! (p + 1); b = px ! (p + 2);
                   v = px' ! p
               in px' ! (p + 1) = v \<and> px' ! (p + 2) = v \<and>
                  uint v = \<lfloor>luminance_double r g b\<rfloor> \<and>
                  luminance_floor r g b - 1 \<le> uint v \<and> uint v \<le> luminance_floor r g b))"
proof -
  let ?n = "width img * height img" and ?c = "channels img"
  have d: "data img = Some px" and len: "int (length px) = ?n * ?c" and m: "?n * ?c \<le> INT_MAX"
    using assms(1) by (simp_all add: valid_image_def)
  note px = valid_image_pixels [OF assms]
  from gray_loop [OF len assms(2) m] obtain px' where
    run: "for_loop [0 .. ?n - 1] (gray_pixel ?c) px = Inr px'" and l: "length px' = length px"
    and blk: "\<forall>i \<in> set [0 .. ?n - 1].
              (px' ! nat (i * ?c), px' ! (nat (i * ?c) + 1), px' ! (nat (i * ?c) + 2)) =
              (let v = luminance (px ! nat (i * ?c)) (px ! (nat (i * ?c) + 1)) (px ! (nat (i * ?c) + 2))
               in (v, v, v))"
    by blast
  have res: "apply_grayscale img = Inr (img\<lparr>data := Some px'\<rparr>)"
    using assms(2) by (simp add: apply_grayscale_def d px(1) run Let_def)
  have pix: "(let p = nat (i * ?c);
                   r = px ! p; g = px ! (p + 1); b = px ! (p + 2);
                   v = px' ! p
               in px' ! (p + 1) = v \<and> px' ! (p + 2) = v \<and>
                  uint v = \<lfloor>luminance_double r g b\<rfloor> \<and>
                  luminance_floor r g b - 1 \<le> uint v \<and> uint v \<le> luminance_floor r g b)"
    if "0 \<le> i \<and> i < ?n" for i
  proof -
    have "i \<in> set [0 .. ?n - 1]" using that by simp
    from blk [rule_format, OF this] show ?thesis
      by (simp add: Let_def uint_luminance [symmetric] luminance_within_one)
  qed
  show ?thesis using res l pix by blast
qed


theorem grayscale_within_rounding_witness:
  "valid_image \<lparr>width = 1, height = 1, channels = 3, data = Some [10, 20, 30]\<rparr> [10, 20, 30] \<and>
   3 \<le> channels \<lparr>width = 1, height = 1, channels = 3, data = Some [10, 20, 30]\<rparr> \<and>
   (\<exists>px'. apply_grayscale \<lparr>width = 1, height = 1, channels = 3, data = Some [10, 20, 30]\<rparr>
            = Inr \<lparr>width = 1, height = 1, channels = 3, data = Some px'\<rparr> \<and>
          px' ! 1 = px' ! 0 \<and> px' ! 2 = px' ! 0 \<and>
          luminance_floor 10 20 30 - 1 \<le> uint (px' ! 0) \<and>
          uint (px' ! 0) \<le> luminance_floor 10 20 30)"
proof -
  let ?img = "\<lparr>width = 1, height = 1, channels = 3, data = Some [10, 20, 30]\<rparr>"
  have h1: "valid_image ?img [10, 20, 30]" by (simp add: valid_image_def INT_MAX_def)
  have h2: "3 \<le> channels ?img" by simp
  from grayscale_within_rounding [OF h1 h2] obtain px' where
    r: "apply_grayscale ?img = Inr (?img\<lparr>data := Some px'\<rparr>)"
    and a: "\<forall>i. 0 \<le> i \<and> i < width ?img * height ?img \<longrightarrow>
              (let p = nat (i * channels ?img);
                   r = [10, 20, 30] ! p; g = [10, 20, 30] ! (p + 1); b = [10, 20, 30] ! (p + 2);
                   v = px' ! p
               in px' ! (p + 1) = v \<and> px' ! (p + 2) = v \<and>
                  uint v = \<lfloor>luminance_double r g b\<rfloor> \<and>
                  luminance_floor r g b - 1 \<le> uint v \<and> uint v \<le> luminance_floor r g b)"
    by blast
  from a [rule_format, of 0]
  have "px' ! 1 = px' ! 0 \<and> px' ! 2 = px' ! 0 \<and>
          luminance_floor 10 20 30 - 1 \<le> uint (px' ! 0) \<and>
          uint (px' ! 0) \<le> luminance_floor 10 20 30"
    by (simp add: Let_def numeral_2_eq_2)
  with r h1 h2 show ?thesis by auto
qed

text \<open>
  It need not be the truncation of the exact sum: the pixel \<open>(1, 1, 1)\<close> becomes
  \<open>(0, 0, 0)\<close>, since the three rounded weights add up to a double just below 1,
  while the exact weighted sum is 1.
\<close>

theorem grayscale_exact_truncation_counterexample:
  "apply_grayscale \<lparr>width = 1, height = 1, channels = 3, data = Some [1, 1, 1]\<rparr>
     = Inr \<lparr>width = 1, height = 1, channels = 3, data = Some [0, 0, 0]\<rparr> \<and>
   \<lfloor>exact_luminance 1 1 1\<rfloor> = 1"
  using gray_111 by (simp add: exact_luminance_floor luminance_floor_def)

section \<open>Sobel edge detection\<close>

subsection \<open>The integer square root\<close>

lemma sqrt_search_bounds:
  "sqrt_search n k \<le> k \<and> sqrt_search n k * sqrt_search n k \<le> n \<and>
   (\<forall>j. sqrt_search n k < j \<and> j \<le> k \<longrightarrow> n < j * j)"
proof (induction k)
  case 0
  then show ?case by auto
next
  case (Suc k)
  show ?case
  proof (cases "Suc k * Suc k \<le> n")
    case True
    then show ?thesis by simp
  next
    case False
    then have eq: "sqrt_search n (Suc k) = sqrt_search n k" by simp
    have "n < j * j" if "sqrt_search n k < j \<and> j \<le> Suc k" for j
    proof (cases "j = Suc k")
      case True
      then show ?thesis using False by simp
    next
      case False
      then show ?thesis using that Suc.IH by simp
    qed
    then show ?thesis using Suc.IH eq by auto
  qed
qed

lemma floor_sqrt_bounds:
  assumes "0 \<le> s"
  shows "0 \<le> floor_sqrt s" and "floor_sqrt s * floor_sqrt s \<le> s"
    and "s < (floor_sqrt s + 1) * (floor_sqrt s + 1)"
proof -
  let ?n = "nat s" and ?k = "sqrt_search (nat s) (nat s)"
  note b = sqrt_search_bounds [of ?n ?n]
  show "0 \<le> floor_sqrt s" by (simp add: floor_sqrt_def)
  have "?k * ?k \<le> ?n" using b by simp
  then have "int ?k * int ?k \<le> int ?n" by (metis of_nat_le_iff of_nat_mult)
  moreover have "int ?n = s" using assms by simp
  ultimately show "floor_sqrt s * floor_sqrt s \<le> s" by (simp only: floor_sqrt_def)
  have "?n < Suc ?k * Suc ?k"
  proof (cases "?k < ?n")
    case True
    then show ?thesis using b by auto
  next
    case False
    then have "?k = ?n" using b by simp
    then show ?thesis by simp
  qed
  then have "int ?n < int (Suc ?k * Suc ?k)" by (simp only: of_nat_less_iff)
  moreover have "int (Suc ?k * Suc ?k) = (int ?k + 1) * (int ?k + 1)"
    by (simp add: algebra_simps)
  moreover have "int ?n = s" using assms by simp
  ultimately show "s < (floor_sqrt s + 1) * (floor_sqrt s + 1)"
    by (simp only: floor_sqrt_def)
qed

lemma floor_sqrt_is_real_sqrt:
  assumes "0 \<le> s"
  shows "floor_sqrt s = \<lfloor>sqrt (of_int s)\<rfloor>"
proof -
  let ?k = "floor_sqrt s"
  note b = floor_sqrt_bounds [OF assms]
  have k0: "0 \<le> real_of_int ?k" using b(1) by simp
  have "real_of_int (?k * ?k) \<le> real_of_int s" using b(2) by (simp only: of_int_le_iff)
  then have "(real_of_int ?k)\<^sup>2 \<le> real_of_int s" by (simp add: power2_eq_square)
  then have lo: "real_of_int ?k \<le> sqrt (of_int s)" using k0 by (simp add: real_le_rsqrt)
  have "real_of_int s < real_of_int ((?k + 1) * (?k + 1))" using b(3) by (simp only: of_int_less_iff)
  then have "real_of_int s < (real_of_int (?k + 1))\<^sup>2" by (simp add: power2_eq_square)
  then have hi: "sqrt (of_int s) < real_of_int (?k + 1)"
    using k0 by (intro real_less_lsqrt) simp_all
  have "sqrt (of_int s) < real_of_int ?k + 1" using hi by simp
  with lo have "\<lfloor>sqrt (of_int s)\<rfloor> = ?k" by (rule floor_unique)
  then show ?thesis by simp
qed

text \<open>The square root of C, correctly rounded, and then truncated by the cast to \<open>int\<close>.\<close>

lemma floor_sqrt_is_double_sqrt:
  assumes n0: "0 \<le> n" and n1: "n \<le> INT_MAX"
  shows "trunc (dbl (sqrt (double_of_int n))) = floor_sqrt n"
proof (cases "n = 0")
  case True
  have "floor_sqrt 0 = 0" by (simp add: floor_sqrt_def)
  then show ?thesis using True by (simp add: double_of_int_def dbl_zero trunc_def)
next
  case False
  define k where "k = floor_sqrt n"
  define x where "x = sqrt (real_of_int n)"
  define K where "K = real_of_int k + 1"
  note b = floor_sqrt_bounds [OF n0, folded k_def]
  have npos: "0 < n" using False n0 by simp
  have k1: "1 \<le> k"
  proof (rule ccontr)
    assume "\<not> 1 \<le> k"
    then have "k = 0" using b(1) by simp
    then show False using b(3) npos by simp
  qed
  have ksmall: "k \<le> 46340"
  proof (rule ccontr)
    assume "\<not> k \<le> 46340"
    then have "46341 \<le> k" by simp
    then have "46341 * 46341 \<le> k * k" by (intro mult_mono) simp_all
    then show False using b(2) n1 by (simp add: INT_MAX_def)
  qed
  have xpos: "0 < x" using npos by (simp add: x_def)
  have xx: "x * x = real_of_int n" using n0 by (simp add: x_def)
  have fl: "k = \<lfloor>x\<rfloor>" using floor_sqrt_is_real_sqrt [OF n0] by (simp add: k_def x_def)
  have lo: "real_of_int k \<le> x" using fl by simp
  have hi: "x < K" unfolding K_def using fl by linarith
  have Kpos: "0 < K" using k1 by (simp add: K_def)
  have Kle: "K \<le> 46341" using ksmall by (simp add: K_def)
  have "real_of_int n + 1 \<le> real_of_int ((k + 1) * (k + 1))"
    using b(3) by (metis of_int_1 of_int_add of_int_le_iff zless_imp_add1_zle)
  then have gap: "1 \<le> K * K - x * x" by (simp add: K_def xx)
  have "K * K - x * x = (K - x) * (K + x)" by (simp add: algebra_simps)
  also have "\<dots> \<le> (K - x) * (2 * K)" using hi by (intro mult_left_mono) simp_all
  finally have g2: "1 \<le> (K - x) * (2 * K)" using gap by linarith
  have "K * (2 * K) \<le> 46341 * (2 * 46341)" using Kle Kpos by (intro mult_mono) simp_all
  then have KK: "K * (2 * K) \<le> 2 ^ 53" by simp
  have "x * (2 * K) < K * (2 * K)" using hi Kpos by (intro mult_strict_right_mono) simp_all
  then have "x * (2 * K) < 2 ^ 53" using KK by linarith
  then have "x * (2 * K) / 2 ^ 53 < (K - x) * (2 * K)" using g2 by simp
  then have "x / 2 ^ 53 * (2 * K) < (K - x) * (2 * K)" by simp
  then have err: "x / 2 ^ 53 < K - x" using Kpos by (simp only: mult_less_cancel_right)
  have up: "dbl x < K" using dbl_rel_error [OF xpos] err by linarith
  have "0 < real_of_int k" using k1 by simp
  moreover have "dbl (real_of_int k) = real_of_int k"
    using k1 ksmall by (intro dbl_pos_int) simp_all
  ultimately have dn: "real_of_int k \<le> dbl x" using lo by (rule dbl_ge_rep)
  have "\<lfloor>dbl x\<rfloor> = k" using dn up unfolding K_def by (intro floor_unique) simp_all
  moreover have "0 \<le> dbl x" using dn k1 by linarith
  ultimately show ?thesis by (simp add: trunc_def double_of_int_def x_def k_def)
qed

subsection \<open>One interior pixel\<close>

lemma pixel_offset_range:
  fixes x y w h :: int
  assumes "0 \<le> x" and "x < w" and "0 \<le> y" and "y < h"
  shows "0 \<le> y * w + x" and "y * w + x < w * h" and "0 \<le> y * w" and "y * w \<le> w * h"
proof -
  have w: "0 \<le> w" using assms by linarith
  show yw: "0 \<le> y * w" using assms w by simp
  then show "0 \<le> y * w + x" using assms by simp
  have "(y + 1) * w \<le> h * w" using assms w by (intro mult_right_mono) simp_all
  then have le: "y * w + w \<le> w * h" by (simp add: algebra_simps)
  then show "y * w + x < w * h" using assms by simp
  show "y * w \<le> w * h" using le w by simp
qed

lemma pixel_offset_inj:
  assumes "0 \<le> x" and "x < w" and "0 \<le> x'" and "x' < w" and "y * w + x = y' * w + x'"
  shows "y = y' \<and> x = (x'::int)"
proof -
  have "(y * w + x) div w = y" using assms(1,2) by simp
  moreover have "(y' * w + x') div w = y'" using assms(3,4) by simp
  ultimately have "y = y'" using assms(5) by simp
  then show ?thesis using assms(5) by simp
qed

lemma load1_Inr: "0 \<le> idx \<Longrightarrow> nat idx < length buf \<Longrightarrow> load1 buf idx = Inr (buf ! nat idx)"
  by (simp add: load1_def)

lemma store1_Inr: "0 \<le> idx \<Longrightarrow> nat idx < length buf \<Longrightarrow> store1 buf idx v = Inr (buf[nat idx := v])"
  by (simp add: store1_def)

lemma kernel_bound:
  assumes "ky \<in> {-1, 0, 1}" and "kx \<in> {-1, 0, 1}"
  shows "\<bar>sobel_gx ! nat (ky + 1) ! nat (kx + 1)\<bar> \<le> 2" and "\<bar>sobel_gy ! nat (ky + 1) ! nat (kx + 1)\<bar> \<le> 2"
  using assms by (auto simp add: sobel_gx_def sobel_gy_def)

lemma product_bound:
  assumes "\<bar>k\<bar> \<le> 2" and "0 \<le> v" and "v \<le> (255::int)"
  shows "\<bar>k * v\<bar> \<le> 510"
proof -
  have "\<bar>k * v\<bar> = \<bar>k\<bar> * v" using assms(2) by (simp add: abs_mult)
  also have "\<dots> \<le> 2 * 255" using assms by (intro mult_mono) simp_all
  finally show ?thesis by simp
qed

lemma sobel_tap_Inr:
  assumes geo: "interior w h x y" and m: "w * h \<le> INT_MAX" and len: "length gray = nat (w * h)"
      and k: "ky \<in> {-1, 0, 1}" "kx \<in> {-1, 0, 1}"
      and sx: "\<bar>sx\<bar> \<le> 100000" and sy: "\<bar>sy\<bar> \<le> 100000"
  shows "sobel_tap w gray x y ky kx (sx, sy) =
           Inr (sx + sobel_gx ! nat (ky + 1) ! nat (kx + 1) * uint (gray ! nat ((y + ky) * w + (x + kx))),
                sy + sobel_gy ! nat (ky + 1) ! nat (kx + 1) * uint (gray ! nat ((y + ky) * w + (x + kx))))"
proof -
  let ?px = "x + kx" and ?py = "y + ky"
  have px: "0 \<le> ?px" "?px < w" and py: "0 \<le> ?py" "?py < h"
    using geo k by (auto simp add: interior_def)
  note r = pixel_offset_range [OF px py]
  have wh: "0 \<le> w * h" using r by linarith
  have big: "2147483647 = INT_MAX" by (simp add: INT_MAX_def)
  have w1: "1 \<le> w" and h1: "1 \<le> h" using px py by linarith+
  have "w * 1 \<le> w * h" using w1 h1 by (intro mult_left_mono) simp_all
  then have wmax: "w \<le> INT_MAX" using m by simp
  have "1 * h \<le> w * h" using w1 h1 by (intro mult_right_mono) simp_all
  then have hmax: "h \<le> INT_MAX" using m by simp
  have a1: "add32 x kx = ?px" using px wmax
    by (simp add: add32_def wrap32_id INT_MIN_def)
  have a2: "add32 y ky = ?py" using py hmax
    by (simp add: add32_def wrap32_id INT_MIN_def)
  have a3: "mul32 ?py w = ?py * w" using r m by (simp add: mul32_def wrap32_id INT_MIN_def)
  have a4: "add32 (?py * w) ?px = ?py * w + ?px" using r m by (simp add: add32_def wrap32_id INT_MIN_def)
  have ld: "load1 gray (?py * w + ?px) = Inr (gray ! nat (?py * w + ?px))"
    using r len by (intro load1_Inr) simp_all
  let ?v = "uint (gray ! nat (?py * w + ?px))"
  have v: "0 \<le> ?v" "?v \<le> 255" using uint_byte_range by simp_all
  have kx': "\<bar>sobel_gx ! nat (ky + 1) ! nat (kx + 1) * ?v\<bar> \<le> 510"
    and ky': "\<bar>sobel_gy ! nat (ky + 1) ! nat (kx + 1) * ?v\<bar> \<le> 510"
    using kernel_bound [OF k] v by (simp_all add: product_bound)
  have m1: "mul32 (sobel_gx ! nat (ky + 1) ! nat (kx + 1)) ?v = sobel_gx ! nat (ky + 1) ! nat (kx + 1) * ?v"
    using kx' by (simp add: mul32_def wrap32_id INT_MIN_def INT_MAX_def)
  have m2: "mul32 (sobel_gy ! nat (ky + 1) ! nat (kx + 1)) ?v = sobel_gy ! nat (ky + 1) ! nat (kx + 1) * ?v"
    using ky' by (simp add: mul32_def wrap32_id INT_MIN_def INT_MAX_def)
  have s1: "add32 sx (sobel_gx ! nat (ky + 1) ! nat (kx + 1) * ?v) = sx + sobel_gx ! nat (ky + 1) ! nat (kx + 1) * ?v"
    using kx' sx by (simp add: add32_def wrap32_id INT_MIN_def INT_MAX_def)
  have s2: "add32 sy (sobel_gy ! nat (ky + 1) ! nat (kx + 1) * ?v) = sy + sobel_gy ! nat (ky + 1) ! nat (kx + 1) * ?v"
    using ky' sy by (simp add: add32_def wrap32_id INT_MIN_def INT_MAX_def)
  show ?thesis
    by (simp only: sobel_tap_def Let_def prod.case a1 a2 a3 a4 ld bindf_Inr m1 m2 s1 s2)
qed

lemma tap_loop:
  assumes geo: "interior w h x y" and m: "w * h \<le> INT_MAX" and len: "length gray = nat (w * h)"
      and ks: "set ks \<subseteq> {-1, 0, 1} \<times> {-1, 0, 1}"
      and sx: "\<bar>sx\<bar> + 510 * int (length ks) \<le> 100000"
      and sy: "\<bar>sy\<bar> + 510 * int (length ks) \<le> 100000"
  shows "for_loop ks (\<lambda>(ky, kx). sobel_tap w gray x y ky kx) (sx, sy) =
           Inr (sx + (\<Sum>(ky, kx) \<leftarrow> ks. sobel_gx ! nat (ky + 1) ! nat (kx + 1) *
                        uint (gray ! nat ((y + ky) * w + (x + kx)))),
                sy + (\<Sum>(ky, kx) \<leftarrow> ks. sobel_gy ! nat (ky + 1) ! nat (kx + 1) *
                        uint (gray ! nat ((y + ky) * w + (x + kx)))))"
  using ks sx sy
proof (induction ks arbitrary: sx sy)
  case Nil
  then show ?case by simp
next
  case (Cons k ks)
  obtain ky kx where k: "k = (ky, kx)" by (cases k)
  have kk: "ky \<in> {-1, 0, 1}" "kx \<in> {-1, 0, 1}" using Cons.prems(1) k by auto
  let ?v = "uint (gray ! nat ((y + ky) * w + (x + kx)))"
  let ?tx = "sobel_gx ! nat (ky + 1) ! nat (kx + 1) * ?v"
  let ?ty = "sobel_gy ! nat (ky + 1) ! nat (kx + 1) * ?v"
  have v: "0 \<le> ?v" "?v \<le> 255" using uint_byte_range by simp_all
  have tx: "\<bar>?tx\<bar> \<le> 510" and ty: "\<bar>?ty\<bar> \<le> 510"
    using kernel_bound [OF kk] v by (simp_all add: product_bound)
  have b: "\<bar>sx\<bar> \<le> 100000" "\<bar>sy\<bar> \<le> 100000" using Cons.prems(2,3) by simp_all
  have step: "sobel_tap w gray x y ky kx (sx, sy) = Inr (sx + ?tx, sy + ?ty)"
    by (rule sobel_tap_Inr [OF geo m len kk b])
  have "for_loop ks (\<lambda>(ky, kx). sobel_tap w gray x y ky kx) (sx + ?tx, sy + ?ty) =
           Inr (sx + ?tx + (\<Sum>(ky, kx) \<leftarrow> ks. sobel_gx ! nat (ky + 1) ! nat (kx + 1) *
                        uint (gray ! nat ((y + ky) * w + (x + kx)))),
                sy + ?ty + (\<Sum>(ky, kx) \<leftarrow> ks. sobel_gy ! nat (ky + 1) ! nat (kx + 1) *
                        uint (gray ! nat ((y + ky) * w + (x + kx)))))"
  proof (rule Cons.IH)
    show "set ks \<subseteq> {-1, 0, 1} \<times> {-1, 0, 1}" using Cons.prems(1) by simp
    have "\<bar>sx\<bar> + 510 + 510 * int (length ks) \<le> 100000" using Cons.prems(2) by simp
    then show "\<bar>sx + ?tx\<bar> + 510 * int (length ks) \<le> 100000"
      using tx abs_triangle_ineq [of sx ?tx] by linarith
    have "\<bar>sy\<bar> + 510 + 510 * int (length ks) \<le> 100000" using Cons.prems(3) by simp
    then show "\<bar>sy + ?ty\<bar> + 510 * int (length ks) \<le> 100000"
      using ty abs_triangle_ineq [of sy ?ty] by linarith
  qed
  then show ?case by (simp add: k step algebra_simps)
qed

lemma sum_list_abs_bound:
  fixes f :: "'a \<Rightarrow> int"
  assumes "\<And>k. k \<in> set ks \<Longrightarrow> \<bar>f k\<bar> \<le> B"
  shows "\<bar>\<Sum>k \<leftarrow> ks. f k\<bar> \<le> B * int (length ks)"
  using assms
proof (induction ks)
  case Nil
  then show ?case by simp
next
  case (Cons k ks)
  have "\<bar>f k\<bar> \<le> B" using Cons.prems by simp
  moreover have "\<bar>\<Sum>k \<leftarrow> ks. f k\<bar> \<le> B * int (length ks)" using Cons by simp
  ultimately show ?case by (simp add: algebra_simps)
qed

lemma convolve_bound:
  assumes "\<And>x' y'. 0 \<le> f x' y' \<and> f x' y' \<le> 255"
  shows "\<bar>convolve sobel_gx f x y\<bar> \<le> 4590" and "\<bar>convolve sobel_gy f x y\<bar> \<le> 4590"
proof -
  let ?ks = "List.product [-1, 0, 1 :: int] [-1, 0, 1 :: int]"
  have len: "int (length ?ks) = 9" by simp
  have mem: "ky \<in> {-1, 0, 1} \<and> kx \<in> {-1, 0, 1}" if "(ky, kx) \<in> set ?ks" for ky kx
    using that by auto
  have "\<bar>\<Sum>k \<leftarrow> ?ks. (case k of (ky, kx) \<Rightarrow>
           sobel_gx ! nat (ky + 1) ! nat (kx + 1) * f (x + kx) (y + ky))\<bar> \<le> 510 * int (length ?ks)"
  proof (rule sum_list_abs_bound)
    fix k assume k: "k \<in> set ?ks"
    obtain ky kx where e: "k = (ky, kx)" by (cases k)
    from mem [of ky kx] k e have kk: "ky \<in> {-1, 0, 1}" "kx \<in> {-1, 0, 1}" by simp_all
    show "\<bar>case k of (ky, kx) \<Rightarrow> sobel_gx ! nat (ky + 1) ! nat (kx + 1) * f (x + kx) (y + ky)\<bar> \<le> 510"
      unfolding e prod.case using kernel_bound(1) [OF kk] assms by (intro product_bound) simp_all
  qed
  then show "\<bar>convolve sobel_gx f x y\<bar> \<le> 4590" unfolding convolve_def len by simp
  have "\<bar>\<Sum>k \<leftarrow> ?ks. (case k of (ky, kx) \<Rightarrow>
           sobel_gy ! nat (ky + 1) ! nat (kx + 1) * f (x + kx) (y + ky))\<bar> \<le> 510 * int (length ?ks)"
  proof (rule sum_list_abs_bound)
    fix k assume k: "k \<in> set ?ks"
    obtain ky kx where e: "k = (ky, kx)" by (cases k)
    from mem [of ky kx] k e have kk: "ky \<in> {-1, 0, 1}" "kx \<in> {-1, 0, 1}" by simp_all
    show "\<bar>case k of (ky, kx) \<Rightarrow> sobel_gy ! nat (ky + 1) ! nat (kx + 1) * f (x + kx) (y + ky)\<bar> \<le> 510"
      unfolding e prod.case using kernel_bound(2) [OF kk] assms by (intro product_bound) simp_all
  qed
  then show "\<bar>convolve sobel_gy f x y\<bar> \<le> 4590" unfolding convolve_def len by simp
qed

lemma square_bound:
  fixes a :: int
  assumes "\<bar>a\<bar> \<le> 4590"
  shows "0 \<le> a * a" and "a * a \<le> 21068100"
proof -
  show "0 \<le> a * a" by simp
  have "a * a = \<bar>a\<bar> * \<bar>a\<bar>" by (simp add: abs_mult_self_eq)
  also have "\<dots> \<le> 4590 * 4590" using assms by (intro mult_mono) simp_all
  finally show "a * a \<le> 21068100" by simp
qed

lemma sobel_magnitude_eq:
  assumes "\<bar>a\<bar> \<le> 4590" and "\<bar>b\<bar> \<le> 4590"
  shows "sobel_magnitude a b = word_of_int (edge_magnitude a b)"
proof -
  note A = square_bound [OF assms(1)] and B = square_bound [OF assms(2)]
  have ma: "mul32 a a = a * a"
    unfolding mul32_def INT_MIN_def INT_MAX_def using A by (intro wrap32_id) (unfold INT_MIN_def INT_MAX_def, linarith+)
  have mb: "mul32 b b = b * b"
    unfolding mul32_def using B by (intro wrap32_id) (unfold INT_MIN_def INT_MAX_def, linarith+)
  have s: "add32 (a * a) (b * b) = a * a + b * b"
    unfolding add32_def using A B by (intro wrap32_id) (unfold INT_MIN_def INT_MAX_def, linarith+)
  have nn: "0 \<le> a * a + b * b" using A B by simp
  have fs: "floor_sqrt (a * a + b * b) = \<lfloor>sqrt (of_int (a * a + b * b))\<rfloor>"
    using nn by (rule floor_sqrt_is_real_sqrt)
  define k where "k = floor_sqrt (a * a + b * b)"
  have f0: "0 \<le> k" unfolding k_def using nn by (rule floor_sqrt_bounds(1))
  have "\<not> a * a + b * b < 0" using nn by linarith
  then have ns: "(a * a + b * b < 0) = False" by (rule eq_False [THEN iffD2])
  have e: "edge_magnitude a b = min 255 k"
    by (simp only: edge_magnitude_def fs [symmetric] k_def)
  have sm: "sobel_magnitude a b =
      word_of_int (if (if k > 255 then 255 else k) < 0 then 0 else (if k > 255 then 255 else k))"
    by (simp only: sobel_magnitude_def Let_def ma mb s ns if_False k_def)
  show ?thesis unfolding e sm using f0 by (simp add: min_def)
qed

lemma upto_m1_1: "[-1 .. 1] = [-1, 0, 1 :: int]"
  by (simp add: upto.simps)

lemma convolve_cong:
  assumes "\<And>ky kx. ky \<in> {-1, 0, 1} \<Longrightarrow> kx \<in> {-1, 0, 1} \<Longrightarrow> f (x + kx) (y + ky) = g (x + kx) (y + ky)"
  shows "convolve K f x y = convolve K g x y"
  using assms [of "-1" "-1"] assms [of "-1" 0] assms [of "-1" 1]
        assms [of 0 "-1"] assms [of 0 0] assms [of 0 1]
        assms [of 1 "-1"] assms [of 1 0] assms [of 1 1]
  by (simp add: convolve_def)

lemma sobel_pixel_store:
  assumes geo: "interior w h x y" and m: "w * h \<le> INT_MAX" and len: "length gray = nat (w * h)"
  shows "sobel_pixel w gray y x out =
           store1 out (y * w + x)
             (word_of_int (edge_magnitude
                (convolve sobel_gx (\<lambda>x' y'. uint (gray ! nat (y' * w + x'))) x y)
                (convolve sobel_gy (\<lambda>x' y'. uint (gray ! nat (y' * w + x'))) x y)))"
proof -
  let ?G = "\<lambda>x' y'. uint (gray ! nat (y' * w + x'))"
  let ?ks = "List.product [-1, 0, 1 :: int] [-1, 0, 1 :: int]"
  have taps: "for_loop [-1 .. 1] (\<lambda>ky. for_loop [-1 .. 1] (sobel_tap w gray x y ky)) (0, 0)
        = for_loop ?ks (\<lambda>(ky, kx). sobel_tap w gray x y ky kx) (0, 0)"
    unfolding upto_m1_1 by (rule for_loop_product)
  have "for_loop ?ks (\<lambda>(ky, kx). sobel_tap w gray x y ky kx) (0, 0) =
           Inr (0 + (\<Sum>(ky, kx) \<leftarrow> ?ks. sobel_gx ! nat (ky + 1) ! nat (kx + 1) *
                        uint (gray ! nat ((y + ky) * w + (x + kx)))),
                0 + (\<Sum>(ky, kx) \<leftarrow> ?ks. sobel_gy ! nat (ky + 1) ! nat (kx + 1) *
                        uint (gray ! nat ((y + ky) * w + (x + kx)))))"
    by (rule tap_loop [OF geo m len]) auto
  then have sums: "for_loop ?ks (\<lambda>(ky, kx). sobel_tap w gray x y ky kx) (0, 0) =
           Inr (convolve sobel_gx ?G x y, convolve sobel_gy ?G x y)"
    by (simp only: convolve_def add_0)
  have px: "0 \<le> x" "x < w" and py: "0 \<le> y" "y < h" using geo by (auto simp add: interior_def)
  note r = pixel_offset_range [OF px py]
  have a3: "mul32 y w = y * w" using r m by (simp add: mul32_def wrap32_id INT_MIN_def)
  have a4: "add32 (y * w) x = y * w + x" using r m by (simp add: add32_def wrap32_id INT_MIN_def)
  have G: "0 \<le> ?G x' y' \<and> ?G x' y' \<le> 255" for x' y' using uint_byte_range by simp
  have mag: "sobel_magnitude (convolve sobel_gx ?G x y) (convolve sobel_gy ?G x y)
      = word_of_int (edge_magnitude (convolve sobel_gx ?G x y) (convolve sobel_gy ?G x y))"
    by (rule sobel_magnitude_eq [OF convolve_bound(1) convolve_bound(2)]) (rule G)+
  show ?thesis
    by (simp only: sobel_pixel_def taps sums bindf_Inr prod.case a3 a4 mag)
qed

subsection \<open>The three loops\<close>

lemma malloc_Some:
  "0 \<le> n \<Longrightarrow> malloc (Some junk) n = Some (map junk [0..<nat n])"
  by (simp add: malloc_def)

lemma valid_image_facts:
  assumes "valid_image img px" and "3 \<le> channels img"
  shows "data img = Some px"
    and "0 \<le> width img" and "width img \<le> INT_MAX"
    and "0 \<le> height img" and "height img \<le> INT_MAX"
    and "width img * height img * channels img \<le> INT_MAX"
    and "int (length px) = width img * height img * channels img"
    and "width img * height img \<le> INT_MAX"
  using assms valid_image_pixels [OF assms]
  by (simp_all add: valid_image_def mul32_def wrap32_def INT_MAX_def) 

text \<open>First loop of \<open>apply_sobel_edge\<close>: the luminance buffer.\<close>

lemma gray_fill_loop:
  assumes len: "int (length px) = n * c" and c: "3 \<le> c" and m: "n * c \<le> INT_MAX"
      and g0: "length gray0 = nat n"
  shows "\<exists>gray. for_loop [0 .. n - 1] (gray_fill c px) gray0 = Inr gray \<and> length gray = nat n \<and>
           (\<forall>i \<in> set [0 .. n - 1].
              gray ! nat i = luminance (px ! nat (i * c)) (px ! (nat (i * c) + 1)) (px ! (nat (i * c) + 2)))"
proof -
  let ?F = "\<lambda>i. luminance (px ! nat (i * c)) (px ! (nat (i * c) + 1)) (px ! (nat (i * c) + 2))"
  have "\<exists>s'. for_loop [0 .. n - 1] (gray_fill c px) gray0 = Inr s' \<and> length s' = length gray0 \<and>
           (\<forall>i \<in> set [0 .. n - 1]. s' ! nat ((\<lambda>i. i) i) = ?F i) \<and>
           (\<forall>p. p \<notin> (\<lambda>i. nat ((\<lambda>i. i) i)) ` set [0 .. n - 1] \<longrightarrow> s' ! p = gray0 ! p)"
  proof (rule loop_store1)
    fix i and s :: "byte list"
    assume i: "i \<in> set [0 .. n - 1]" and l: "length s = length gray0"
    have i': "0 \<le> i" "i < n" using i by auto
    have idx: "mul32 i c = i * c" using i' c m by (intro mul32_index [of i n c]) simp_all
    note r = block_in_range [OF i' c len]
    show "gray_fill c px i s = store1 s i (?F i)"
      by (simp add: gray_fill_def idx load3_Inr [OF r] Let_def)
  next
    fix i assume i: "i \<in> set [0 .. n - 1]"
    then show "0 \<le> i \<and> nat i < length gray0" using g0 by auto
  next
    show "inj_on (\<lambda>i. i) (set [0 .. n - 1])" by simp
    show "distinct [0 .. n - 1]" by simp
  qed
  then show ?thesis using g0 by auto
qed

text \<open>Second loop: the convolution over the interior.\<close>

lemma interior_loop:
  assumes m: "w * h \<le> INT_MAX" and len: "length gray = nat (w * h)" and lo: "length out0 = nat (w * h)"
  shows "\<exists>out. for_loop [1 .. h - 2] (\<lambda>y. for_loop [1 .. w - 2] (sobel_pixel w gray y)) out0 = Inr out \<and>
           length out = nat (w * h) \<and>
           (\<forall>x y. interior w h x y \<longrightarrow>
              out ! nat (y * w + x) =
                word_of_int (edge_magnitude
                  (convolve sobel_gx (\<lambda>x' y'. uint (gray ! nat (y' * w + x'))) x y)
                  (convolve sobel_gy (\<lambda>x' y'. uint (gray ! nat (y' * w + x'))) x y))) \<and>
           (\<forall>x y. 0 \<le> x \<and> x < w \<and> 0 \<le> y \<and> y < h \<and> \<not> interior w h x y \<longrightarrow>
              out ! nat (y * w + x) = out0 ! nat (y * w + x))"
proof -
  let ?ps = "List.product [1 .. h - 2] [1 .. w - 2]"
  let ?pos = "\<lambda>(y, x). y * w + x"
  let ?F = "\<lambda>(y, x). word_of_int (edge_magnitude
                  (convolve sobel_gx (\<lambda>x' y'. uint (gray ! nat (y' * w + x'))) x y)
                  (convolve sobel_gy (\<lambda>x' y'. uint (gray ! nat (y' * w + x'))) x y)) :: byte"
  have mem: "(y, x) \<in> set ?ps \<longleftrightarrow> interior w h x y" for x y
    by (auto simp add: interior_def)
  have flat: "for_loop [1 .. h - 2] (\<lambda>y. for_loop [1 .. w - 2] (sobel_pixel w gray y)) out0
      = for_loop ?ps (\<lambda>(y, x). sobel_pixel w gray y x) out0"
    by (rule for_loop_product)
  have "\<exists>s'. for_loop ?ps (\<lambda>(y, x). sobel_pixel w gray y x) out0 = Inr s' \<and> length s' = length out0 \<and>
           (\<forall>i \<in> set ?ps. s' ! nat (?pos i) = ?F i) \<and>
           (\<forall>p. p \<notin> (\<lambda>i. nat (?pos i)) ` set ?ps \<longrightarrow> s' ! p = out0 ! p)"
  proof (rule loop_store1)
    fix i and s :: "byte list"
    assume i: "i \<in> set ?ps" and l: "length s = length out0"
    obtain y x where e: "i = (y, x)" by (cases i)
    have geo: "interior w h x y" using i e mem by simp
    show "(case i of (y, x) \<Rightarrow> sobel_pixel w gray y x) s = store1 s (?pos i) (?F i)"
      unfolding e prod.case by (rule sobel_pixel_store [OF geo m len])
  next
    fix i assume i: "i \<in> set ?ps"
    obtain y x where e: "i = (y, x)" by (cases i)
    have geo: "interior w h x y" using i e mem by simp
    then have "0 \<le> x" "x < w" "0 \<le> y" "y < h" by (auto simp add: interior_def)
    from pixel_offset_range [OF this] show "0 \<le> ?pos i \<and> nat (?pos i) < length out0"
      unfolding e prod.case lo by simp
  next
    show "inj_on ?pos (set ?ps)"
    proof (rule inj_onI)
      fix i j assume i: "i \<in> set ?ps" and j: "j \<in> set ?ps" and eq: "?pos i = ?pos j"
      obtain y x where e: "i = (y, x)" by (cases i)
      obtain y' x' where e': "j = (y', x')" by (cases j)
      have "interior w h x y" "interior w h x' y'" using i j e e' mem by simp_all
      then have "0 \<le> x" "x < w" "0 \<le> x'" "x' < w" by (auto simp add: interior_def)
      from pixel_offset_inj [OF this, of y y'] eq show "i = j" unfolding e e' by simp
    qed
    show "distinct ?ps" by (simp add: distinct_product)
  qed
  then obtain out where out: "for_loop ?ps (\<lambda>(y, x). sobel_pixel w gray y x) out0 = Inr out"
      "length out = length out0"
      "\<forall>i \<in> set ?ps. out ! nat (?pos i) = ?F i"
      "\<forall>p. p \<notin> (\<lambda>i. nat (?pos i)) ` set ?ps \<longrightarrow> out ! p = out0 ! p"
    by blast
  have inner: "out ! nat (y * w + x) = ?F (y, x)" if "interior w h x y" for x y
    using out(3) that mem [of y x] by auto
  have border: "out ! nat (y * w + x) = out0 ! nat (y * w + x)"
    if "0 \<le> x \<and> x < w \<and> 0 \<le> y \<and> y < h \<and> \<not> interior w h x y" for x y
  proof -
    have "nat (y * w + x) \<notin> (\<lambda>i. nat (?pos i)) ` set ?ps"
    proof
      assume "nat (y * w + x) \<in> (\<lambda>i. nat (?pos i)) ` set ?ps"
      then obtain y' x' where j: "(y', x') \<in> set ?ps" and eq: "nat (y * w + x) = nat (y' * w + x')"
        by auto
      have geo: "interior w h x' y'" using j mem by simp
      then have r': "0 \<le> x'" "x' < w" "0 \<le> y'" "y' < h" by (auto simp add: interior_def)
      have "0 \<le> y * w + x" using pixel_offset_range(1) [of x w y h] that by simp
      moreover have "0 \<le> y' * w + x'" using pixel_offset_range(1) [OF r'] .
      ultimately have "y * w + x = y' * w + x'" using eq by simp
      from pixel_offset_inj [OF _ _ r'(1,2) this] that have "y = y' \<and> x = x'" by simp
      then show False using geo that by simp
    qed
    then show ?thesis using out(4) by simp
  qed
  show ?thesis using flat out(1,2) lo inner border by auto
qed

text \<open>Last loop: every pixel receives its entry of \<open>out\<close>.\<close>

lemma copy_back_loop:
  assumes len: "int (length px) = n * c" and c: "3 \<le> c" and m: "n * c \<le> INT_MAX"
      and lo: "length out = nat n"
  shows "\<exists>px'. for_loop [0 .. n - 1] (copy_back c out) px = Inr px' \<and> length px' = length px \<and>
           (\<forall>i \<in> set [0 .. n - 1].
              (px' ! nat (i * c), px' ! (nat (i * c) + 1), px' ! (nat (i * c) + 2))
                = (out ! nat i, out ! nat i, out ! nat i))"
proof -
  let ?F = "\<lambda>i. (out ! nat i, out ! nat i, out ! nat i)"
  have "\<exists>s'. for_loop [0 .. n - 1] (copy_back c out) px = Inr s' \<and> length s' = length px \<and>
           (\<forall>i \<in> set [0 .. n - 1].
              (s' ! nat ((\<lambda>i. i * c) i), s' ! (nat ((\<lambda>i. i * c) i) + 1), s' ! (nat ((\<lambda>i. i * c) i) + 2)) = ?F i) \<and>
           (\<forall>p. (\<forall>i \<in> set [0 .. n - 1]. p < nat ((\<lambda>i. i * c) i) \<or> nat ((\<lambda>i. i * c) i) + 2 < p)
              \<longrightarrow> s' ! p = px ! p)"
  proof (rule loop_store3)
    fix i and s :: "byte list"
    assume i: "i \<in> set [0 .. n - 1]" and l: "length s = length px"
    have i': "0 \<le> i" "i < n" using i by auto
    have idx: "mul32 i c = i * c" using i' c m by (intro mul32_index [of i n c]) simp_all
    have ld: "load1 out i = Inr (out ! nat i)" using i' lo by (simp add: load1_def)
    show "copy_back c out i s = store3 s (i * c) (?F i)"
      by (simp add: copy_back_def idx ld)
  next
    fix i assume i: "i \<in> set [0 .. n - 1]"
    then have i': "0 \<le> i" "i < n" by auto
    from block_in_range [OF i' c len] show "0 \<le> i * c \<and> nat (i * c) + 2 < length px" by simp
  next
    fix i j assume "i \<in> set [0 .. n - 1]" "j \<in> set [0 .. n - 1]" "i \<noteq> j"
    then show "i * c + 3 \<le> j * c \<or> j * c + 3 \<le> i * c" using block_sep [OF c] by simp
  next
    show "distinct [0 .. n - 1]" by simp
  qed
  then show ?thesis by auto
qed

text \<open>What \<open>apply_sobel_edge\<close> leaves in the buffer.\<close>

lemma sobel_result:
  assumes v: "valid_image img px" and c: "3 \<le> channels img"
  shows "\<exists>px'. apply_sobel_edge (Some jg) (Some jo) img = Inr (img\<lparr>data := Some px'\<rparr>) \<and>
           length px' = length px \<and>
           (\<forall>x y. 0 \<le> x \<and> x < width img \<and> 0 \<le> y \<and> y < height img \<longrightarrow>
              (px' ! nat ((y * width img + x) * channels img),
               px' ! (nat ((y * width img + x) * channels img) + 1),
               px' ! (nat ((y * width img + x) * channels img) + 2))
              = (let e = (if interior (width img) (height img) x y
                          then word_of_int (sobel_value px (width img) (channels img) x y)
                          else jo (nat (y * width img + x)))
                 in (e, e, e)))"
proof -
  define w where "w = width img"
  define h where "h = height img"
  define cc where "cc = channels img"
  define n where "n = w * h"
  note f = valid_image_facts [OF v c, folded w_def h_def cc_def]
  have c3: "3 \<le> cc" using c by (simp add: cc_def)
  have n_eq: "mul32 w h = n" using valid_image_pixels(1) [OF v c] by (simp add: w_def h_def n_def)
  have nn: "0 \<le> n" using valid_image_pixels(2) [OF v c] by (simp add: w_def h_def n_def)
  have len: "int (length px) = n * cc" using f(7) by (simp add: n_def)
  have m: "n * cc \<le> INT_MAX" using f(6) by (simp add: n_def)
  have m': "w * h \<le> INT_MAX" using f(8) .
  let ?g0 = "map jg [0..<nat n]"
  let ?o0 = "map jo [0..<nat n]"
  have "length ?g0 = nat n" by simp
  from gray_fill_loop [OF len c3 m this]
  obtain gray where g: "for_loop [0 .. n - 1] (gray_fill cc px) ?g0 = Inr gray"
      and gl: "length gray = nat n"
      and gv: "\<forall>i \<in> set [0 .. n - 1].
              gray ! nat i = luminance (px ! nat (i * cc)) (px ! (nat (i * cc) + 1)) (px ! (nat (i * cc) + 2))"
    by blast
  have sh: "sub32 h 1 - 1 = h - 2" and sw: "sub32 w 1 - 1 = w - 2"
    using f(2,3,4,5) by (simp_all add: sub32_def wrap32_id INT_MIN_def INT_MAX_def)
  have gl': "length gray = nat (w * h)" and ol': "length ?o0 = nat (w * h)"
    using gl by (simp_all add: n_def)
  from interior_loop [OF m' gl' ol']
  obtain out where o: "for_loop [1 .. h - 2] (\<lambda>y. for_loop [1 .. w - 2] (sobel_pixel w gray y)) ?o0 = Inr out"
      and ol: "length out = nat (w * h)"
      and oi: "\<forall>x y. interior w h x y \<longrightarrow>
              out ! nat (y * w + x) =
                word_of_int (edge_magnitude
                  (convolve sobel_gx (\<lambda>x' y'. uint (gray ! nat (y' * w + x'))) x y)
                  (convolve sobel_gy (\<lambda>x' y'. uint (gray ! nat (y' * w + x'))) x y))"
      and ob: "\<forall>x y. 0 \<le> x \<and> x < w \<and> 0 \<le> y \<and> y < h \<and> \<not> interior w h x y \<longrightarrow>
              out ! nat (y * w + x) = ?o0 ! nat (y * w + x)"
    by blast
  have ol2: "length out = nat n" using ol by (simp add: n_def)
  from copy_back_loop [OF len c3 m ol2]
  obtain px' where p: "for_loop [0 .. n - 1] (copy_back cc out) px = Inr px'"
      and pl: "length px' = length px"
      and pv: "\<forall>i \<in> set [0 .. n - 1].
              (px' ! nat (i * cc), px' ! (nat (i * cc) + 1), px' ! (nat (i * cc) + 2))
                = (out ! nat i, out ! nat i, out ! nat i)"
    by blast
  have nc: "\<not> cc < 3" using c3 by simp
  have mg: "malloc (Some jg) n = Some ?g0" and mo: "malloc (Some jo) n = Some ?o0"
    using nn by (simp_all add: malloc_Some)
  have run: "apply_sobel_edge (Some jg) (Some jo) img = Inr (img\<lparr>data := Some px'\<rparr>)"
    unfolding apply_sobel_edge_def f(1) option.case w_def [symmetric] h_def [symmetric]
      cc_def [symmetric] Let_def n_eq
    by (simp only: nc if_False mg mo option.case g o p sh sw bindf_Inr)
  have gray_at: "uint (gray ! nat (y * w + x)) = pixel_luma px w cc x y"
    if "0 \<le> x" "x < w" "0 \<le> y" "y < h" for x y
  proof -
    from pixel_offset_range [OF that] have "y * w + x \<in> set [0 .. n - 1]" by (simp add: n_def)
    from gv [rule_format, OF this] show ?thesis by (simp add: pixel_luma_def Let_def)
  qed
  have value_at: "out ! nat (y * w + x) = word_of_int (sobel_value px w cc x y)"
    if geo: "interior w h x y" for x y
  proof -
    have cx: "convolve K (\<lambda>x' y'. uint (gray ! nat (y' * w + x'))) x y = convolve K (pixel_luma px w cc) x y"
      for K
    proof (rule convolve_cong)
      fix ky kx :: int assume "ky \<in> {-1, 0, 1}" "kx \<in> {-1, 0, 1}"
      then have "0 \<le> x + kx" "x + kx < w" "0 \<le> y + ky" "y + ky < h"
        using geo by (auto simp add: interior_def)
      from gray_at [OF this] show "uint (gray ! nat ((y + ky) * w + (x + kx))) = pixel_luma px w cc (x + kx) (y + ky)" .
    qed
    show ?thesis using oi [rule_format, OF geo] by (simp only: cx sobel_value_def)
  qed
  have border_at: "out ! nat (y * w + x) = jo (nat (y * w + x))"
    if "0 \<le> x" "x < w" "0 \<le> y" "y < h" "\<not> interior w h x y" for x y
  proof -
    from pixel_offset_range [OF that(1-4)] have "nat (y * w + x) < nat n" by (simp add: n_def)
    then have "?o0 ! nat (y * w + x) = jo (nat (y * w + x))" by simp
    then show ?thesis using ob that by simp
  qed
  have px_at: "(px' ! nat ((y * w + x) * cc), px' ! (nat ((y * w + x) * cc) + 1),
                px' ! (nat ((y * w + x) * cc) + 2))
              = (let e = (if interior w h x y then word_of_int (sobel_value px w cc x y)
                          else jo (nat (y * w + x)))
                 in (e, e, e))"
    if r: "0 \<le> x \<and> x < w \<and> 0 \<le> y \<and> y < h" for x y
  proof -
    have r': "0 \<le> x" "x < w" "0 \<le> y" "y < h" using r by simp_all
    from pixel_offset_range [OF r'] have "y * w + x \<in> set [0 .. n - 1]" by (simp add: n_def)
    from pv [rule_format, OF this]
    have e: "(px' ! nat ((y * w + x) * cc), px' ! (nat ((y * w + x) * cc) + 1),
                px' ! (nat ((y * w + x) * cc) + 2))
         = (out ! nat (y * w + x), out ! nat (y * w + x), out ! nat (y * w + x))" .
    show ?thesis
    proof (cases "interior w h x y")
      case True
      then show ?thesis using e value_at [OF True] by (simp add: Let_def)
    next
      case False
      then show ?thesis using e border_at [OF r' False] by (simp add: Let_def)
    qed
  qed
  show ?thesis
    using run pl px_at unfolding w_def h_def cc_def by blast
qed

subsection \<open>The pixels after the call\<close>

lemma sobel_rgb_at:
  assumes v: "valid_image img px" and c: "3 \<le> channels img"
      and x: "0 \<le> x" "x < width img" and y: "0 \<le> y" "y < height img"
  shows "rgb_at (apply_sobel_edge (Some jg) (Some jo) img) x y =
           (let e = (if interior (width img) (height img) x y
                     then word_of_int (sobel_value px (width img) (channels img) x y)
                     else jo (nat (y * width img + x)))
            in Some (e, e, e))"
proof -
  from sobel_result [OF v c, of jg jo]
  obtain px' where run: "apply_sobel_edge (Some jg) (Some jo) img = Inr (img\<lparr>data := Some px'\<rparr>)"
      and pl: "length px' = length px"
      and pv: "\<forall>x y. 0 \<le> x \<and> x < width img \<and> 0 \<le> y \<and> y < height img \<longrightarrow>
              (px' ! nat ((y * width img + x) * channels img),
               px' ! (nat ((y * width img + x) * channels img) + 1),
               px' ! (nat ((y * width img + x) * channels img) + 2))
              = (let e = (if interior (width img) (height img) x y
                          then word_of_int (sobel_value px (width img) (channels img) x y)
                          else jo (nat (y * width img + x)))
                 in (e, e, e))"
    by blast
  note f = valid_image_facts [OF v c]
  from pixel_offset_range [OF x y]
  have "0 \<le> y * width img + x" "y * width img + x < width img * height img" by simp_all
  from block_in_range [OF this c f(7)]
  have r: "nat ((y * width img + x) * channels img) + 2 < length px'" using pl by simp
  from pv x y have e: "(px' ! nat ((y * width img + x) * channels img),
               px' ! (nat ((y * width img + x) * channels img) + 1),
               px' ! (nat ((y * width img + x) * channels img) + 2))
              = (let e = (if interior (width img) (height img) x y
                          then word_of_int (sobel_value px (width img) (channels img) x y)
                          else jo (nat (y * width img + x)))
                 in (e, e, e))" by simp
  show ?thesis
    unfolding rgb_at_def run using r e by (simp add: Let_def)
qed

lemma edge_magnitude_range: "0 \<le> edge_magnitude gx gy \<and> edge_magnitude gx gy \<le> 255"
proof -
  have "0 \<le> gx * gx + gy * gy" by simp
  then have "0 \<le> sqrt (of_int (gx * gx + gy * gy))" by simp
  then have "0 \<le> \<lfloor>sqrt (of_int (gx * gx + gy * gy))\<rfloor>" by simp
  then show ?thesis by (simp add: edge_magnitude_def)
qed

lemma edge_magnitude_floor_sqrt: "edge_magnitude gx gy = min 255 (floor_sqrt (gx * gx + gy * gy))"
proof -
  have "0 \<le> gx * gx + gy * gy" by simp
  from floor_sqrt_is_real_sqrt [OF this] show ?thesis by (simp add: edge_magnitude_def)
qed

lemma valid_corner_image:
  "valid_image corner_image [0, 0, 0,  0, 0, 0,  0, 0, 0,
                   0, 0, 0,  0, 0, 0,  0, 0, 0,
                   0, 0, 0,  0, 0, 0,  7, 7, 7]"
  by (simp add: valid_image_def corner_image_def INT_MAX_def)


lemma corner_convolution:
  "convolve sobel_gx (pixel_luma [0, 0, 0,  0, 0, 0,  0, 0, 0,
                   0, 0, 0,  0, 0, 0,  0, 0, 0,
                   0, 0, 0,  0, 0, 0,  7, 7, 7] 3 3) 1 1 = 7"
  "convolve sobel_gy (pixel_luma [0, 0, 0,  0, 0, 0,  0, 0, 0,
                   0, 0, 0,  0, 0, 0,  0, 0, 0,
                   0, 0, 0,  0, 0, 0,  7, 7, 7] 3 3) 1 1 = 7"
  by (simp_all add: convolve_def pixel_luma_def sobel_gx_def sobel_gy_def
        luminance_000 luminance_777 Let_def)

lemma floor_sqrt_98: "floor_sqrt 98 = 9"
  by code_simp

lemma corner_value:
  "sobel_value [0, 0, 0,  0, 0, 0,  0, 0, 0,
                   0, 0, 0,  0, 0, 0,  0, 0, 0,
                   0, 0, 0,  0, 0, 0,  7, 7, 7] 3 3 1 1 = 9"
  by (simp add: sobel_value_def corner_convolution edge_magnitude_floor_sqrt floor_sqrt_98)

lemma round_sqrt_98: "round (sqrt 98) = 10"
proof -
  have "(19 / 2)\<^sup>2 \<le> (98 :: real)" by (simp add: power2_eq_square)
  then have lo: "19 / 2 \<le> sqrt 98" by (rule real_le_rsqrt)
  have "(98 :: real) < (21 / 2)\<^sup>2" by (simp add: power2_eq_square)
  then have hi: "sqrt 98 < 21 / 2" by (intro real_less_lsqrt) simp_all
  show ?thesis unfolding round_def using lo hi by linarith
qed

lemma corner_rounded:
  "rounded_magnitude 7 7 = 10"
  using round_sqrt_98 by (simp add: rounded_magnitude_def)

text \<open>
  Claim C4, as amended. For every image with at least three channels whose buffer
  holds \<open>width * height * channels\<close> bytes, and every interior pixel \<open>(x, y)\<close>
  (\<open>1 \<le> x \<le> width - 2\<close>, \<open>1 \<le> y \<le> height - 2\<close>, so width and height are at least 3),
  when both buffers are allocated \<open>apply_sobel_edge\<close> ends without a fault and the
  three channels of the pixel hold the truncated square root
  \<open>\<lfloor>sqrt (gx^2 + gy^2)\<rfloor>\<close> clamped to 255, which lies in \<open>[0, 255]\<close>; \<open>gx\<close> and \<open>gy\<close> are the
  convolutions of the two Sobel kernels with the luminance bytes computed from the
  colours on entry.
\<close>

theorem sobel_interior_truncated_magnitude:
  assumes "valid_image img px" and "3 \<le> channels img"
      and "interior (width img) (height img) x y"
  shows "rgb_at (apply_sobel_edge (Some jg) (Some jo) img) x y =
           Some (word_of_int (sobel_value px (width img) (channels img) x y),
                 word_of_int (sobel_value px (width img) (channels img) x y),
                 word_of_int (sobel_value px (width img) (channels img) x y)) \<and>
         0 \<le> sobel_value px (width img) (channels img) x y \<and>
         sobel_value px (width img) (channels img) x y \<le> 255"
proof -
  have r: "0 \<le> x" "x < width img" "0 \<le> y" "y < height img"
    using assms(3) by (auto simp add: interior_def)
  from sobel_rgb_at [OF assms(1,2) r, of jg jo] assms(3) edge_magnitude_range
  show ?thesis by (simp add: Let_def sobel_value_def)
qed

theorem sobel_interior_truncated_magnitude_witness:
  "valid_image corner_image [0, 0, 0,  0, 0, 0,  0, 0, 0,
                   0, 0, 0,  0, 0, 0,  0, 0, 0,
                   0, 0, 0,  0, 0, 0,  7, 7, 7] \<and>
   3 \<le> channels corner_image \<and>
   interior (width corner_image) (height corner_image) 1 1 \<and>
   rgb_at (apply_sobel_edge (Some (\<lambda>_. 0)) (Some (\<lambda>_. 0)) corner_image) 1 1 = Some (9, 9, 9)"
  using sobel_interior_truncated_magnitude
    [of corner_image "[0, 0, 0,  0, 0, 0,  0, 0, 0,
                   0, 0, 0,  0, 0, 0,  0, 0, 0,
                   0, 0, 0,  0, 0, 0,  7, 7, 7]" 1 1 "\<lambda>_. 0" "\<lambda>_. 0"]
    valid_corner_image
  by (simp add: corner_image_def interior_def corner_value)

text \<open>
  The claim as first worded asks for the nearest integer. On the image with one
  pixel \<open>(7, 7, 7)\<close> in the corner both convolutions are 7 at the centre, the square
  root of 98 is about 9.9, the code stores 9 and the nearest integer is 10.
\<close>

theorem sobel_rounded_magnitude_counterexample:
  "rgb_at (apply_sobel_edge (Some (\<lambda>_. 0)) (Some (\<lambda>_. 0)) corner_image) 1 1 = Some (9, 9, 9) \<and>
   rounded_magnitude
     (convolve sobel_gx (pixel_luma [0, 0, 0,  0, 0, 0,  0, 0, 0,
                   0, 0, 0,  0, 0, 0,  0, 0, 0,
                   0, 0, 0,  0, 0, 0,  7, 7, 7] 3 3) 1 1)
     (convolve sobel_gy (pixel_luma [0, 0, 0,  0, 0, 0,  0, 0, 0,
                   0, 0, 0,  0, 0, 0,  0, 0, 0,
                   0, 0, 0,  0, 0, 0,  7, 7, 7] 3 3) 1 1) = 10"
proof -
  have "rgb_at (apply_sobel_edge (Some (\<lambda>_. 0)) (Some (\<lambda>_. 0)) corner_image) 1 1 = Some (9, 9, 9)"
    using sobel_rgb_at [OF valid_corner_image, of 1 1 "\<lambda>_. 0" "\<lambda>_. 0"]
    by (simp add: corner_image_def interior_def corner_value)
  then show ?thesis by (simp add: corner_convolution corner_rounded)
qed




section \<open>The box blur with a positive radius\<close>

subsection \<open>Offsets and window bounds\<close>

lemma pix_index_eq:
  assumes x: "0 \<le> x" "x < w" and y: "0 \<le> y" "y < h" and c: "0 \<le> c"
      and m: "w * h * c \<le> INT_MAX" and m': "w * h \<le> INT_MAX"
  shows "pix_index w c y x = (y * w + x) * c"
proof -
  note r = pixel_offset_range [OF x y]
  have a: "mul32 y w = y * w" using r m' by (simp add: mul32_def wrap32_id INT_MIN_def)
  have b: "add32 (y * w) x = y * w + x" using r m' by (simp add: add32_def wrap32_id INT_MIN_def)
  have d: "mul32 (y * w + x) c = (y * w + x) * c" using r(1,2) c m by (rule mul32_index)
  show ?thesis by (simp only: pix_index_def a b d)
qed

lemma window_bounds:
  assumes x: "0 \<le> x" "x < w" and r: "0 < radius" and o: "w - 1 + radius \<le> INT_MAX"
  shows "win_min x radius = max 0 (x - radius)" and "win_max w x radius = min (w - 1) (x + radius)"
proof -
  have w: "1 \<le> w" "w \<le> INT_MAX" "radius \<le> INT_MAX" using x r o by simp_all
  have s: "sub32 x radius = x - radius"
    using x r w by (simp add: sub32_def wrap32_id INT_MIN_def INT_MAX_def)
  have a: "add32 x radius = x + radius"
    using x r o by (simp add: add32_def wrap32_id INT_MIN_def INT_MAX_def)
  have t: "sub32 w 1 = w - 1"
    using w by (simp add: sub32_def wrap32_id INT_MIN_def INT_MAX_def)
  show "win_min x radius = max 0 (x - radius)" by (simp add: win_min_def s)
  show "win_max w x radius = min (w - 1) (x + radius)" using x by (simp add: win_max_def a t)
qed

lemma window_contains_centre:
  assumes "0 \<le> x" "x < w" and "0 < radius" and "w - 1 + radius \<le> INT_MAX"
  shows "0 \<le> win_min x radius" and "win_min x radius \<le> x" and "x \<le> win_max w x radius"
    and "win_max w x radius < w"
  using assms window_bounds [OF assms] by simp_all

subsection \<open>The accumulation over one window\<close>

lemma window_loop_count:
  assumes "\<And>k. k \<in> set ks \<Longrightarrow> 0 \<le> index_of k \<and> nat (index_of k) + 2 < length buf"
      and "0 \<le> n" and "n + int (length ks) \<le> INT_MAX"
  shows "\<exists>t0 t1 t2. for_loop ks (window_step buf index_of) (s0, s1, s2, n)
            = Inr (t0, t1, t2, n + int (length ks))"
  using assms
proof (induction ks arbitrary: s0 s1 s2 n)
  case Nil
  then show ?case by simp
next
  case (Cons k ks)
  have k: "0 \<le> index_of k" "nat (index_of k) + 2 < length buf" using Cons.prems(1) by simp_all
  have n1: "add32 n 1 = n + 1"
    using Cons.prems(2,3) by (simp add: add32_def wrap32_id INT_MIN_def)
  have step: "window_step buf index_of k (s0, s1, s2, n) =
      Inr (add32 s0 (uint (buf ! nat (index_of k))), add32 s1 (uint (buf ! (nat (index_of k) + 1))),
           add32 s2 (uint (buf ! (nat (index_of k) + 2))), n + 1)"
    by (simp add: window_step_def load3_Inr [OF k] n1)
  have "\<exists>t0 t1 t2. for_loop ks (window_step buf index_of)
           (add32 s0 (uint (buf ! nat (index_of k))), add32 s1 (uint (buf ! (nat (index_of k) + 1))),
            add32 s2 (uint (buf ! (nat (index_of k) + 2))), n + 1)
            = Inr (t0, t1, t2, n + 1 + int (length ks))"
    using Cons.prems by (intro Cons.IH) simp_all
  then obtain t0 t1 t2 where t: "for_loop ks (window_step buf index_of)
           (add32 s0 (uint (buf ! nat (index_of k))), add32 s1 (uint (buf ! (nat (index_of k) + 1))),
            add32 s2 (uint (buf ! (nat (index_of k) + 2))), n + 1)
            = Inr (t0, t1, t2, n + 1 + int (length ks))"
    by blast
  have eq: "n + 1 + int (length ks) = n + int (length (k # ks))" by simp
  have "for_loop (k # ks) (window_step buf index_of) (s0, s1, s2, n)
      = Inr (t0, t1, t2, n + int (length (k # ks)))"
    by (simp only: for_loop.simps step bindf_Inr t eq)
  then show ?case by blast
qed

lemma add32_partial_sum:
  assumes "0 \<le> s" and "0 \<le> v" and "0 \<le> t" and "s + (v + t) \<le> INT_MAX"
  shows "add32 s v = s + v"
  unfolding add32_def using assms by (intro wrap32_id) (simp_all add: INT_MIN_def)

lemma window_loop_uniform:
  assumes "\<And>k. k \<in> set ks \<Longrightarrow> load3 buf (index_of k) = Inr (a, b, c)"
      and "0 \<le> n" and "n + int (length ks) \<le> INT_MAX"
      and "0 \<le> s0" and "s0 + uint a * int (length ks) \<le> INT_MAX"
      and "0 \<le> s1" and "s1 + uint b * int (length ks) \<le> INT_MAX"
      and "0 \<le> s2" and "s2 + uint c * int (length ks) \<le> INT_MAX"
  shows "for_loop ks (window_step buf index_of) (s0, s1, s2, n)
            = Inr (s0 + uint a * int (length ks), s1 + uint b * int (length ks),
                   s2 + uint c * int (length ks), n + int (length ks))"
  using assms
proof (induction ks arbitrary: s0 s1 s2 n)
  case Nil
  then show ?case by simp
next
  case (Cons k ks)
  have ld: "load3 buf (index_of k) = Inr (a, b, c)" using Cons.prems(1) by simp
  have nn: "0 \<le> uint a * int (length ks)" "0 \<le> uint b * int (length ks)"
    "0 \<le> uint c * int (length ks)" by simp_all
  have e: "uint v * int (length (k # ks)) = uint v + uint v * int (length ks)" for v :: byte
    by (simp add: algebra_simps)
  have n1: "add32 n 1 = n + 1"
    using Cons.prems(2,3) by (simp add: add32_def wrap32_id INT_MIN_def)
  have a0: "add32 s0 (uint a) = s0 + uint a"
    using Cons.prems(5) unfolding e
    by (intro add32_partial_sum [OF Cons.prems(4) _ nn(1)]) simp_all
  have a1: "add32 s1 (uint b) = s1 + uint b"
    using Cons.prems(7) unfolding e
    by (intro add32_partial_sum [OF Cons.prems(6) _ nn(2)]) simp_all
  have a2: "add32 s2 (uint c) = s2 + uint c"
    using Cons.prems(9) unfolding e
    by (intro add32_partial_sum [OF Cons.prems(8) _ nn(3)]) simp_all
  have step: "window_step buf index_of k (s0, s1, s2, n) =
      Inr (s0 + uint a, s1 + uint b, s2 + uint c, n + 1)"
    by (simp add: window_step_def ld n1 a0 a1 a2)
  have "for_loop ks (window_step buf index_of) (s0 + uint a, s1 + uint b, s2 + uint c, n + 1)
      = Inr (s0 + uint a + uint a * int (length ks), s1 + uint b + uint b * int (length ks),
             s2 + uint c + uint c * int (length ks), n + 1 + int (length ks))"
    using Cons.prems unfolding e by (intro Cons.IH) simp_all
  then have "for_loop (k # ks) (window_step buf index_of) (s0, s1, s2, n)
      = Inr (s0 + uint a + uint a * int (length ks), s1 + uint b + uint b * int (length ks),
             s2 + uint c + uint c * int (length ks), n + 1 + int (length ks))"
    by (simp only: for_loop.simps step bindf_Inr)
  then show ?case unfolding e by (simp add: add.assoc)
qed

lemma tdiv_product:
  assumes "0 \<le> v" and "0 < m"
  shows "tdiv (v * m) m = v"
proof -
  have "\<not> v * m < 0" using assms by (simp add: not_less)
  then show ?thesis using assms by (simp add: tdiv_def)
qed

lemma window_mean_Inr:
  "n \<noteq> 0 \<Longrightarrow> \<exists>m. window_mean (s0, s1, s2, n) = Inr m"
  by (simp add: window_mean_def mean_byte_def)

lemma window_mean_uniform:
  assumes "0 < m"
  shows "window_mean (uint a * m, uint b * m, uint c * m, m) = Inr (a, b, c)"
  using assms by (simp add: window_mean_def mean_byte_def tdiv_product)

subsection \<open>One pixel of a pass\<close>

lemma window_pixel_store:
  assumes ks: "\<And>k. k \<in> set ks \<Longrightarrow> 0 \<le> index_of k \<and> nat (index_of k) + 2 < length buf"
      and ne: "ks \<noteq> []" and le: "int (length ks) \<le> INT_MAX"
  shows "\<exists>t0 t1 t2 n. for_loop ks (window_step buf index_of) (0, 0, 0, 0) = Inr (t0, t1, t2, n) \<and> 1 \<le> n"
    and "\<exists>m. \<forall>out. bindf (for_loop ks (window_step buf index_of) (0, 0, 0, 0)) (\<lambda>acc.
                  bindf (window_mean acc) (\<lambda>m. store3 out idx m)) = store3 out idx m"
proof -
  have "\<exists>t0 t1 t2. for_loop ks (window_step buf index_of) (0, 0, 0, 0)
            = Inr (t0, t1, t2, 0 + int (length ks))"
    using ks le by (intro window_loop_count) simp_all
  then obtain t0 t1 t2 where t: "for_loop ks (window_step buf index_of) (0, 0, 0, 0)
            = Inr (t0, t1, t2, int (length ks))" by auto
  have n: "1 \<le> int (length ks)" using ne by (cases ks) simp_all
  show "\<exists>t0 t1 t2 n. for_loop ks (window_step buf index_of) (0, 0, 0, 0) = Inr (t0, t1, t2, n) \<and> 1 \<le> n"
    using t n by blast
  have "int (length ks) \<noteq> 0" using ne by simp
  from window_mean_Inr [OF this, of t0 t1 t2]
  obtain m where m: "window_mean (t0, t1, t2, int (length ks)) = Inr m" by blast
  have "bindf (for_loop ks (window_step buf index_of) (0, 0, 0, 0)) (\<lambda>acc.
                  bindf (window_mean acc) (\<lambda>m. store3 out idx m)) = store3 out idx m" for out
    by (simp only: t bindf_Inr m)
  then show "\<exists>m. \<forall>out. bindf (for_loop ks (window_step buf index_of) (0, 0, 0, 0)) (\<lambda>acc.
                  bindf (window_mean acc) (\<lambda>m. store3 out idx m)) = store3 out idx m"
    by blast
qed

lemma window_pixel_uniform:
  assumes ks: "\<And>k. k \<in> set ks \<Longrightarrow> load3 buf (index_of k) = Inr (a, b, c)"
      and ne: "ks \<noteq> []" and le: "255 * int (length ks) \<le> INT_MAX"
  shows "bindf (for_loop ks (window_step buf index_of) (0, 0, 0, 0)) (\<lambda>acc.
           bindf (window_mean acc) (\<lambda>m. store3 out idx m)) = store3 out idx (a, b, c)"
proof -
  let ?m = "int (length ks)"
  have m: "0 < ?m" using ne by (cases ks) simp_all
  have bnd: "uint v * ?m \<le> INT_MAX" for v :: byte
  proof -
    have "uint v \<le> 255" using uint_byte_range [of v] by simp
    then have "uint v * ?m \<le> 255 * ?m" by (intro mult_right_mono) simp_all
    then show ?thesis using le by linarith
  qed
  have "?m \<le> 255 * ?m" by simp
  then have cnt: "?m \<le> INT_MAX" using le by linarith
  have "for_loop ks (window_step buf index_of) (0, 0, 0, 0)
      = Inr (0 + uint a * ?m, 0 + uint b * ?m, 0 + uint c * ?m, 0 + ?m)"
    using ks bnd cnt by (intro window_loop_uniform) simp_all
  then have t: "for_loop ks (window_step buf index_of) (0, 0, 0, 0)
      = Inr (uint a * ?m, uint b * ?m, uint c * ?m, ?m)" by simp
  show ?thesis by (simp only: t bindf_Inr window_mean_uniform [OF m])
qed

subsection \<open>One pass over the image\<close>

lemma blur_pass:
  assumes body: "\<And>x y s. 0 \<le> x \<Longrightarrow> x < w \<Longrightarrow> 0 \<le> y \<Longrightarrow> y < h \<Longrightarrow> length s = length s0 \<Longrightarrow>
                   body y x s = store3 s ((y * w + x) * c) (F y x)"
      and len: "int (length s0) = w * h * c" and c: "3 \<le> c"
  shows "\<exists>s'. for_loop [0 .. h - 1] (\<lambda>y. for_loop [0 .. w - 1] (body y)) s0 = Inr s' \<and>
           length s' = length s0 \<and>
           (\<forall>x y. 0 \<le> x \<and> x < w \<and> 0 \<le> y \<and> y < h \<longrightarrow>
              (s' ! nat ((y * w + x) * c), s' ! (nat ((y * w + x) * c) + 1),
               s' ! (nat ((y * w + x) * c) + 2)) = F y x) \<and>
           (\<forall>p. (\<forall>i. 0 \<le> i \<and> i < w * h \<longrightarrow> p < nat (i * c) \<or> nat (i * c) + 2 < p)
              \<longrightarrow> s' ! p = s0 ! p)"
proof -
  let ?ps = "List.product [0 .. h - 1] [0 .. w - 1]"
  let ?pos = "\<lambda>(y, x). (y * w + x) * c"
  let ?F = "\<lambda>(y, x). F y x"
  have mem: "(y, x) \<in> set ?ps \<longleftrightarrow> 0 \<le> x \<and> x < w \<and> 0 \<le> y \<and> y < h" for x y by auto
  have flat: "for_loop [0 .. h - 1] (\<lambda>y. for_loop [0 .. w - 1] (body y)) s0
      = for_loop ?ps (\<lambda>(y, x). body y x) s0"
    by (rule for_loop_product)
  have "\<exists>s'. for_loop ?ps (\<lambda>(y, x). body y x) s0 = Inr s' \<and> length s' = length s0 \<and>
           (\<forall>i \<in> set ?ps. (s' ! nat (?pos i), s' ! (nat (?pos i) + 1), s' ! (nat (?pos i) + 2)) = ?F i) \<and>
           (\<forall>p. (\<forall>i \<in> set ?ps. p < nat (?pos i) \<or> nat (?pos i) + 2 < p) \<longrightarrow> s' ! p = s0 ! p)"
  proof (rule loop_store3)
    fix i and s :: "byte list"
    assume i: "i \<in> set ?ps" and l: "length s = length s0"
    obtain y x where e: "i = (y, x)" by (cases i)
    have r: "0 \<le> x" "x < w" "0 \<le> y" "y < h" using i e mem by simp_all
    show "(case i of (y, x) \<Rightarrow> body y x) s = store3 s (?pos i) (?F i)"
      unfolding e prod.case by (rule body [OF r l])
  next
    fix i assume i: "i \<in> set ?ps"
    obtain y x where e: "i = (y, x)" by (cases i)
    have r: "0 \<le> x" "x < w" "0 \<le> y" "y < h" using i e mem by simp_all
    from block_in_range [OF pixel_offset_range(1,2) [OF r] c len]
    show "0 \<le> ?pos i \<and> nat (?pos i) + 2 < length s0" unfolding e prod.case by simp
  next
    fix i j assume i: "i \<in> set ?ps" and j: "j \<in> set ?ps" and ne: "i \<noteq> j"
    obtain y x where e: "i = (y, x)" by (cases i)
    obtain y' x' where e': "j = (y', x')" by (cases j)
    have r: "0 \<le> x" "x < w" using i e mem by simp_all
    have r': "0 \<le> x'" "x' < w" using j e' mem by simp_all
    have "y * w + x \<noteq> y' * w + x'" using pixel_offset_inj [OF r r', of y y'] ne e e' by auto
    from block_sep [OF c this]
    show "?pos i + 3 \<le> ?pos j \<or> ?pos j + 3 \<le> ?pos i" unfolding e e' prod.case .
  next
    show "distinct ?ps" by (simp add: distinct_product)
  qed
  then obtain s' where s: "for_loop ?ps (\<lambda>(y, x). body y x) s0 = Inr s'" "length s' = length s0"
      "\<forall>i \<in> set ?ps. (s' ! nat (?pos i), s' ! (nat (?pos i) + 1), s' ! (nat (?pos i) + 2)) = ?F i"
      "\<forall>p. (\<forall>i \<in> set ?ps. p < nat (?pos i) \<or> nat (?pos i) + 2 < p) \<longrightarrow> s' ! p = s0 ! p"
    by blast
  have blocks: "(s' ! nat ((y * w + x) * c), s' ! (nat ((y * w + x) * c) + 1),
               s' ! (nat ((y * w + x) * c) + 2)) = F y x"
    if "0 \<le> x \<and> x < w \<and> 0 \<le> y \<and> y < h" for x y
    using s(3) that mem [of y x] by auto
  have frame: "s' ! p = s0 ! p"
    if out: "\<forall>i. 0 \<le> i \<and> i < w * h \<longrightarrow> p < nat (i * c) \<or> nat (i * c) + 2 < p" for p
  proof -
    have "\<forall>i \<in> set ?ps. p < nat (?pos i) \<or> nat (?pos i) + 2 < p"
    proof
      fix i assume i: "i \<in> set ?ps"
      obtain y x where e: "i = (y, x)" by (cases i)
      have r: "0 \<le> x" "x < w" "0 \<le> y" "y < h" using i e mem by simp_all
      from pixel_offset_range(1,2) [OF r] out
      show "p < nat (?pos i) \<or> nat (?pos i) + 2 < p" unfolding e prod.case by blast
    qed
    then show ?thesis using s(4) by blast
  qed
  show ?thesis using flat s(1,2) blocks frame by auto
qed

subsection \<open>The windows of the two passes\<close>

lemma window_keys:
  assumes x: "0 \<le> x" "x < w" and r: "0 < radius" and o: "w - 1 + radius \<le> INT_MAX"
  shows "[win_min x radius .. win_max w x radius] \<noteq> []"
    and "int (length [win_min x radius .. win_max w x radius]) \<le> min w (2 * radius + 1)"
    and "\<And>k. k \<in> set [win_min x radius .. win_max w x radius] \<Longrightarrow> 0 \<le> k \<and> k < w"
proof -
  note b = window_bounds [OF x r o]
  note cc = window_contains_centre [OF x r o]
  show "[win_min x radius .. win_max w x radius] \<noteq> []" using cc by simp
  have "int (length [win_min x radius .. win_max w x radius])
      = min (w - 1) (x + radius) - max 0 (x - radius) + 1"
    using cc by (simp add: b)
  then show "int (length [win_min x radius .. win_max w x radius]) \<le> min w (2 * radius + 1)"
    using x r by linarith
  show "\<And>k. k \<in> set [win_min x radius .. win_max w x radius] \<Longrightarrow> 0 \<le> k \<and> k < w"
    using cc by simp
qed

lemma block_load:
  assumes x: "0 \<le> x" "x < w" and y: "0 \<le> y" "y < h" and c: "3 \<le> c"
      and m: "w * h * c \<le> INT_MAX" and len: "int (length buf) = w * h * c"
  shows "pix_index w c y x = (y * w + x) * c"
    and "0 \<le> (y * w + x) * c" and "nat ((y * w + x) * c) + 2 < length buf"
proof -
  note r = pixel_offset_range [OF x y]
  have "w * h * 1 \<le> w * h * c" using r c by (intro mult_left_mono) linarith+
  then have m': "w * h \<le> INT_MAX" using m by simp
  show "pix_index w c y x = (y * w + x) * c" using c by (intro pix_index_eq [OF x y _ m m']) simp
  show "0 \<le> (y * w + x) * c" "nat ((y * w + x) * c) + 2 < length buf"
    using block_in_range [OF r(1,2) c len] by simp_all
qed

lemma hpass_pixel_store:
  assumes x: "0 \<le> x" "x < w" and y: "0 \<le> y" "y < h" and c: "3 \<le> c"
      and m: "w * h * c \<le> INT_MAX" and len: "int (length src) = w * h * c"
      and r: "0 < radius" and o: "w - 1 + radius \<le> INT_MAX"
  shows "\<exists>t0 t1 t2 n. hpass_window w c radius src y x = Inr (t0, t1, t2, n) \<and> 1 \<le> n"
    and "\<exists>m. \<forall>tmp. hpass_pixel w c radius src y x tmp = store3 tmp ((y * w + x) * c) m"
proof -
  let ?ks = "[win_min x radius .. win_max w x radius]"
  note k = window_keys [OF x r o]
  have w: "w \<le> INT_MAX" using o r by simp
  have keys: "0 \<le> pix_index w c y k \<and> nat (pix_index w c y k) + 2 < length src"
    if "k \<in> set ?ks" for k
  proof -
    have kr: "0 \<le> k" "k < w" using k(3) [OF that] by simp_all
    from block_load [OF kr y c m len] show ?thesis by simp
  qed
  have le: "int (length ?ks) \<le> INT_MAX" using k(2) w by simp
  show "\<exists>t0 t1 t2 n. hpass_window w c radius src y x = Inr (t0, t1, t2, n) \<and> 1 \<le> n"
    unfolding hpass_window_def by (rule window_pixel_store(1) [OF keys k(1) le])
  show "\<exists>m. \<forall>tmp. hpass_pixel w c radius src y x tmp = store3 tmp ((y * w + x) * c) m"
    unfolding hpass_pixel_def hpass_window_def block_load(1) [OF x y c m len]
    by (rule window_pixel_store(2) [OF keys k(1) le])
qed

lemma vpass_pixel_store:
  assumes x: "0 \<le> x" "x < w" and y: "0 \<le> y" "y < h" and c: "3 \<le> c"
      and m: "w * h * c \<le> INT_MAX" and len: "int (length tmp) = w * h * c"
      and r: "0 < radius" and o: "h - 1 + radius \<le> INT_MAX"
  shows "\<exists>t0 t1 t2 n. vpass_window w h c radius tmp y x = Inr (t0, t1, t2, n) \<and> 1 \<le> n"
    and "\<exists>m. \<forall>src. vpass_pixel w h c radius tmp y x src = store3 src ((y * w + x) * c) m"
proof -
  let ?ks = "[win_min y radius .. win_max h y radius]"
  note k = window_keys [OF y r o]
  have h: "h \<le> INT_MAX" using o r by simp
  have keys: "0 \<le> pix_index w c k x \<and> nat (pix_index w c k x) + 2 < length tmp"
    if "k \<in> set ?ks" for k
  proof -
    have kr: "0 \<le> k" "k < h" using k(3) [OF that] by simp_all
    from block_load [OF x kr c m len] show ?thesis by simp
  qed
  have le: "int (length ?ks) \<le> INT_MAX" using k(2) h by simp
  show "\<exists>t0 t1 t2 n. vpass_window w h c radius tmp y x = Inr (t0, t1, t2, n) \<and> 1 \<le> n"
    unfolding vpass_window_def by (rule window_pixel_store(1) [OF keys k(1) le])
  show "\<exists>m. \<forall>src. vpass_pixel w h c radius tmp y x src = store3 src ((y * w + x) * c) m"
    unfolding vpass_pixel_def vpass_window_def block_load(1) [OF x y c m len]
    by (rule window_pixel_store(2) [OF keys k(1) le])
qed

lemma hpass_pixel_uniform:
  assumes x: "0 \<le> x" "x < w" and y: "0 \<le> y" "y < h" and c: "3 \<le> c"
      and m: "w * h * c \<le> INT_MAX" and len: "int (length src) = w * h * c"
      and r: "0 < radius" and o: "w - 1 + radius \<le> INT_MAX"
      and s: "255 * min w (2 * radius + 1) \<le> INT_MAX"
      and u: "\<And>i. 0 \<le> i \<Longrightarrow> i < w * h \<Longrightarrow>
                 (src ! nat (i * c), src ! (nat (i * c) + 1), src ! (nat (i * c) + 2)) = v"
  shows "hpass_pixel w c radius src y x tmp = store3 tmp ((y * w + x) * c) v"
proof -
  let ?ks = "[win_min x radius .. win_max w x radius]"
  obtain a b d where v: "v = (a, b, d)" by (cases v)
  note k = window_keys [OF x r o]
  have keys: "load3 src (pix_index w c y k) = Inr (a, b, d)" if "k \<in> set ?ks" for k
  proof -
    have kr: "0 \<le> k" "k < w" using k(3) [OF that] by simp_all
    note bl = block_load [OF kr y c m len]
    from u [OF pixel_offset_range(1,2) [OF kr y]] show ?thesis
      by (simp only: bl(1) load3_Inr [OF bl(2,3)] v)
  qed
  have "255 * int (length ?ks) \<le> 255 * min w (2 * radius + 1)"
    using k(2) by (intro mult_left_mono) simp_all
  then have le: "255 * int (length ?ks) \<le> INT_MAX" using s by linarith
  show ?thesis
    unfolding hpass_pixel_def hpass_window_def block_load(1) [OF x y c m len] v
    by (rule window_pixel_uniform [OF keys k(1) le])
qed

lemma vpass_pixel_uniform:
  assumes x: "0 \<le> x" "x < w" and y: "0 \<le> y" "y < h" and c: "3 \<le> c"
      and m: "w * h * c \<le> INT_MAX" and len: "int (length tmp) = w * h * c"
      and r: "0 < radius" and o: "h - 1 + radius \<le> INT_MAX"
      and s: "255 * min h (2 * radius + 1) \<le> INT_MAX"
      and u: "\<And>i. 0 \<le> i \<Longrightarrow> i < w * h \<Longrightarrow>
                 (tmp ! nat (i * c), tmp ! (nat (i * c) + 1), tmp ! (nat (i * c) + 2)) = v"
  shows "vpass_pixel w h c radius tmp y x src = store3 src ((y * w + x) * c) v"
proof -
  let ?ks = "[win_min y radius .. win_max h y radius]"
  obtain a b d where v: "v = (a, b, d)" by (cases v)
  note k = window_keys [OF y r o]
  have keys: "load3 tmp (pix_index w c k x) = Inr (a, b, d)" if "k \<in> set ?ks" for k
  proof -
    have kr: "0 \<le> k" "k < h" using k(3) [OF that] by simp_all
    note bl = block_load [OF x kr c m len]
    from u [OF pixel_offset_range(1,2) [OF x kr]] show ?thesis
      by (simp only: bl(1) load3_Inr [OF bl(2,3)] v)
  qed
  have "255 * int (length ?ks) \<le> 255 * min h (2 * radius + 1)"
    using k(2) by (intro mult_left_mono) simp_all
  then have le: "255 * int (length ?ks) \<le> INT_MAX" using s by linarith
  show ?thesis
    unfolding vpass_pixel_def vpass_window_def block_load(1) [OF x y c m len] v
    by (rule window_pixel_uniform [OF keys k(1) le])
qed

subsection \<open>The whole filter\<close>

lemma pixel_offset_surj:
  fixes w h i :: int
  assumes "0 \<le> i" and "i < w * h" and "0 \<le> w"
  obtains x y where "0 \<le> x" "x < w" "0 \<le> y" "y < h" "i = y * w + x"
proof -
  have w: "0 < w"
  proof (rule ccontr)
    assume "\<not> 0 < w"
    then have "w = 0" using assms(3) by simp
    then show False using assms(1,2) by simp
  qed
  let ?x = "i mod w" and ?y = "i div w"
  have x: "0 \<le> ?x" "?x < w" using w by simp_all
  have y0: "0 \<le> ?y" using assms(1) w by (simp add: pos_imp_zdiv_nonneg_iff)
  have e: "i = ?y * w + ?x" by simp
  have "?y < h"
  proof (rule ccontr)
    assume "\<not> ?y < h"
    then have "h \<le> ?y" by simp
    then have "h * w \<le> ?y * w" using w by (intro mult_right_mono) simp_all
    then have "h * w \<le> ?y * w + ?x" using x(1) by linarith
    then have "h * w \<le> i" by (simp only: div_mult_mod_eq)
    then show False using assms(2) by (simp add: mult.commute)
  qed
  with x y0 e show ?thesis using that by blast
qed

lemma blur_sizes:
  assumes v: "valid_image img px" and c: "3 \<le> channels img"
  shows "mul32 (mul32 (width img) (height img)) (channels img)
           = width img * height img * channels img"
    and "0 \<le> width img * height img * channels img"
proof -
  note f = valid_image_facts [OF v c]
  note p = valid_image_pixels [OF v c]
  show nn: "0 \<le> width img * height img * channels img" using p(2) c by simp
  have "mul32 (width img * height img) (channels img) = width img * height img * channels img"
    unfolding mul32_def using nn f(6) by (intro wrap32_id) (simp_all add: INT_MIN_def)
  then show "mul32 (mul32 (width img) (height img)) (channels img)
           = width img * height img * channels img"
    by (simp only: p(1))
qed

lemma box_blur_run:
  assumes v: "valid_image img px" and c: "3 \<le> channels img"
      and r: "0 < radius"
      and ow: "width img - 1 + radius \<le> INT_MAX" and oh: "height img - 1 + radius \<le> INT_MAX"
  shows "\<exists>px'. apply_box_blur (Some junk) img radius = Inr (img\<lparr>data := Some px'\<rparr>) \<and>
           length px' = length px"
proof -
  define w where "w = width img"
  define h where "h = height img"
  define cc where "cc = channels img"
  note f = valid_image_facts [OF v c, folded w_def h_def cc_def]
  note z = blur_sizes [OF v c, folded w_def h_def cc_def]
  have c3: "3 \<le> cc" using c by (simp add: cc_def)
  have ow': "w - 1 + radius \<le> INT_MAX" and oh': "h - 1 + radius \<le> INT_MAX"
    using ow oh by (simp_all add: w_def h_def)
  let ?t0 = "map junk [0..<nat (w * h * cc)]"
  have mt: "malloc (Some junk) (w * h * cc) = Some ?t0" using z(2) by (simp add: malloc_Some)
  have lt: "int (length ?t0) = w * h * cc" using z(2) by simp
  have "\<forall>p. \<exists>m. case p of (y, x) \<Rightarrow> 0 \<le> x \<and> x < w \<and> 0 \<le> y \<and> y < h \<longrightarrow>
          (\<forall>tmp. hpass_pixel w cc radius px y x tmp = store3 tmp ((y * w + x) * cc) m)"
    using hpass_pixel_store(2) [OF _ _ _ _ c3 f(6,7) r ow'] by auto
  from choice [OF this] obtain G1 where g1: "\<forall>p. case p of (y, x) \<Rightarrow>
          0 \<le> x \<and> x < w \<and> 0 \<le> y \<and> y < h \<longrightarrow>
          (\<forall>tmp. hpass_pixel w cc radius px y x tmp = store3 tmp ((y * w + x) * cc) (G1 p))" ..
  have b1: "hpass_pixel w cc radius px y x s = store3 s ((y * w + x) * cc) (G1 (y, x))"
    if "0 \<le> x" "x < w" "0 \<le> y" "y < h" for x y s
    using g1 [rule_format, of "(y, x)"] that by simp
  from blur_pass [of w h, OF b1 lt c3]
  obtain tmp where t: "for_loop [0 .. h - 1] (\<lambda>y. for_loop [0 .. w - 1] (hpass_pixel w cc radius px y)) ?t0
            = Inr tmp"
      and tl: "length tmp = length ?t0"
    by blast
  have lt': "int (length tmp) = w * h * cc" using tl lt by simp
  have "\<forall>p. \<exists>m. case p of (y, x) \<Rightarrow> 0 \<le> x \<and> x < w \<and> 0 \<le> y \<and> y < h \<longrightarrow>
          (\<forall>src. vpass_pixel w h cc radius tmp y x src = store3 src ((y * w + x) * cc) m)"
    using vpass_pixel_store(2) [OF _ _ _ _ c3 f(6) lt' r oh'] by auto
  from choice [OF this] obtain G2 where g2: "\<forall>p. case p of (y, x) \<Rightarrow>
          0 \<le> x \<and> x < w \<and> 0 \<le> y \<and> y < h \<longrightarrow>
          (\<forall>src. vpass_pixel w h cc radius tmp y x src = store3 src ((y * w + x) * cc) (G2 p))" ..
  have b2: "vpass_pixel w h cc radius tmp y x s = store3 s ((y * w + x) * cc) (G2 (y, x))"
    if "0 \<le> x" "x < w" "0 \<le> y" "y < h" for x y s
    using g2 [rule_format, of "(y, x)"] that by simp
  from blur_pass [of w h, OF b2 f(7) c3]
  obtain px' where p: "for_loop [0 .. h - 1] (\<lambda>y. for_loop [0 .. w - 1] (vpass_pixel w h cc radius tmp y)) px
            = Inr px'"
      and pl: "length px' = length px"
    by blast
  have g: "\<not> (cc < 3 \<or> radius \<le> 0)" using c3 r by simp
  have "apply_box_blur (Some junk) img radius = Inr (img\<lparr>data := Some px'\<rparr>)"
    unfolding apply_box_blur_def f(1) option.case w_def [symmetric] h_def [symmetric]
      cc_def [symmetric] Let_def z(1)
    by (simp only: g if_False mt option.case t p bindf_Inr)
  then show ?thesis using pl by blast
qed

lemma box_blur_two_pass:
  assumes v: "valid_image img px" and c: "3 \<le> channels img" and r: "0 < radius"
      and b1: "\<And>x y s. 0 \<le> x \<Longrightarrow> x < width img \<Longrightarrow> 0 \<le> y \<Longrightarrow> y < height img \<Longrightarrow>
                 hpass_pixel (width img) (channels img) radius px y x s
                   = store3 s ((y * width img + x) * channels img) col1"
      and b2: "\<And>tmp x y s. 0 \<le> x \<Longrightarrow> x < width img \<Longrightarrow> 0 \<le> y \<Longrightarrow> y < height img \<Longrightarrow>
                 int (length tmp) = width img * height img * channels img \<Longrightarrow>
                 (\<And>i. 0 \<le> i \<Longrightarrow> i < width img * height img \<Longrightarrow>
                    (tmp ! nat (i * channels img), tmp ! (nat (i * channels img) + 1),
                     tmp ! (nat (i * channels img) + 2)) = col1) \<Longrightarrow>
                 vpass_pixel (width img) (height img) (channels img) radius tmp y x s
                   = store3 s ((y * width img + x) * channels img) col2"
  shows "\<exists>px'. apply_box_blur (Some junk) img radius = Inr (img\<lparr>data := Some px'\<rparr>) \<and>
           length px' = length px \<and>
           (\<forall>i. 0 \<le> i \<and> i < width img * height img \<longrightarrow>
              (px' ! nat (i * channels img), px' ! (nat (i * channels img) + 1),
               px' ! (nat (i * channels img) + 2)) = col2) \<and>
           (\<forall>p. (\<forall>i. 0 \<le> i \<and> i < width img * height img \<longrightarrow>
                   p < nat (i * channels img) \<or> nat (i * channels img) + 2 < p)
              \<longrightarrow> px' ! p = px ! p)"
proof -
  define w where "w = width img"
  define h where "h = height img"
  define cc where "cc = channels img"
  note f = valid_image_facts [OF v c, folded w_def h_def cc_def]
  note z = blur_sizes [OF v c, folded w_def h_def cc_def]
  have c3: "3 \<le> cc" using c by (simp add: cc_def)
  let ?t0 = "map junk [0..<nat (w * h * cc)]"
  have mt: "malloc (Some junk) (w * h * cc) = Some ?t0" using z(2) by (simp add: malloc_Some)
  have lt: "int (length ?t0) = w * h * cc" using z(2) by simp
  have b1': "hpass_pixel w cc radius px y x s = store3 s ((y * w + x) * cc) ((\<lambda>y x. col1) y x)"
    if "0 \<le> x" "x < w" "0 \<le> y" "y < h" for x y s
    using b1 [of x y s] that by (simp add: w_def h_def cc_def)
  from blur_pass [of w h, OF b1' lt c3]
  obtain tmp where t: "for_loop [0 .. h - 1] (\<lambda>y. for_loop [0 .. w - 1] (hpass_pixel w cc radius px y)) ?t0
            = Inr tmp"
      and tl: "length tmp = length ?t0"
      and tv: "\<forall>x y. 0 \<le> x \<and> x < w \<and> 0 \<le> y \<and> y < h \<longrightarrow>
              (tmp ! nat ((y * w + x) * cc), tmp ! (nat ((y * w + x) * cc) + 1),
               tmp ! (nat ((y * w + x) * cc) + 2)) = col1"
    by blast
  have lt': "int (length tmp) = w * h * cc" using tl lt by simp
  have u1: "(tmp ! nat (i * cc), tmp ! (nat (i * cc) + 1), tmp ! (nat (i * cc) + 2)) = col1"
    if i: "0 \<le> i" "i < w * h" for i
  proof -
    from pixel_offset_surj [OF i f(2)]
    obtain x y where "0 \<le> x" "x < w" "0 \<le> y" "y < h" "i = y * w + x" by blast
    then show ?thesis using tv by simp
  qed
  have b2': "vpass_pixel w h cc radius tmp y x s = store3 s ((y * w + x) * cc) ((\<lambda>y x. col2) y x)"
    if "0 \<le> x" "x < w" "0 \<le> y" "y < h" for x y s
    using b2 [of x y tmp s] that lt' u1 by (simp add: w_def h_def cc_def)
  from blur_pass [of w h, OF b2' f(7) c3]
  obtain px' where p: "for_loop [0 .. h - 1] (\<lambda>y. for_loop [0 .. w - 1] (vpass_pixel w h cc radius tmp y)) px
            = Inr px'"
      and pl: "length px' = length px"
      and pv: "\<forall>x y. 0 \<le> x \<and> x < w \<and> 0 \<le> y \<and> y < h \<longrightarrow>
              (px' ! nat ((y * w + x) * cc), px' ! (nat ((y * w + x) * cc) + 1),
               px' ! (nat ((y * w + x) * cc) + 2)) = col2"
      and pf: "\<forall>p. (\<forall>i. 0 \<le> i \<and> i < w * h \<longrightarrow> p < nat (i * cc) \<or> nat (i * cc) + 2 < p)
              \<longrightarrow> px' ! p = px ! p"
    by blast
  have u2: "(px' ! nat (i * cc), px' ! (nat (i * cc) + 1), px' ! (nat (i * cc) + 2)) = col2"
    if i: "0 \<le> i \<and> i < w * h" for i
  proof -
    from pixel_offset_surj [OF i [THEN conjunct1] i [THEN conjunct2] f(2)]
    obtain x y where "0 \<le> x" "x < w" "0 \<le> y" "y < h" "i = y * w + x" by blast
    then show ?thesis using pv by simp
  qed
  have g: "\<not> (cc < 3 \<or> radius \<le> 0)" using c3 r by simp
  have "apply_box_blur (Some junk) img radius = Inr (img\<lparr>data := Some px'\<rparr>)"
    unfolding apply_box_blur_def f(1) option.case w_def [symmetric] h_def [symmetric]
      cc_def [symmetric] Let_def z(1)
    by (simp only: g if_False mt option.case t p bindf_Inr)
  then show ?thesis using pl u2 pf unfolding w_def h_def cc_def by blast
qed

lemma box_blur_uniform:
  assumes v: "valid_image img px" and c: "3 \<le> channels img"
      and r: "0 < radius"
      and ow: "width img - 1 + radius \<le> INT_MAX" and oh: "height img - 1 + radius \<le> INT_MAX"
      and sw: "255 * min (width img) (2 * radius + 1) \<le> INT_MAX"
      and sh: "255 * min (height img) (2 * radius + 1) \<le> INT_MAX"
      and u: "uniform_colour px (width img * height img) (channels img) col"
  shows "apply_box_blur (Some junk) img radius = Inr img"
proof -
  note f = valid_image_facts [OF v c]
  have u0: "(px ! nat (i * channels img), px ! (nat (i * channels img) + 1),
             px ! (nat (i * channels img) + 2)) = col"
    if "0 \<le> i" "i < width img * height img" for i
    using u that by (simp add: uniform_colour_def list_all_iff)
  have b1: "hpass_pixel (width img) (channels img) radius px y x s
              = store3 s ((y * width img + x) * channels img) col"
    if "0 \<le> x" "x < width img" "0 \<le> y" "y < height img" for x y s
    by (rule hpass_pixel_uniform [OF that c f(6,7) r ow sw u0])
  have b2: "vpass_pixel (width img) (height img) (channels img) radius tmp y x s
              = store3 s ((y * width img + x) * channels img) col"
    if "0 \<le> x" "x < width img" "0 \<le> y" "y < height img"
      and "int (length tmp) = width img * height img * channels img"
      and "\<And>i. 0 \<le> i \<Longrightarrow> i < width img * height img \<Longrightarrow>
             (tmp ! nat (i * channels img), tmp ! (nat (i * channels img) + 1),
              tmp ! (nat (i * channels img) + 2)) = col"
    for tmp x y s
    by (rule vpass_pixel_uniform [OF that(1-4) c f(6) that(5) r oh sh that(6)])
  from box_blur_two_pass [OF v c r b1 b2, of junk]
  obtain px' where run: "apply_box_blur (Some junk) img radius = Inr (img\<lparr>data := Some px'\<rparr>)"
      and pl: "length px' = length px"
      and pv: "\<forall>i. 0 \<le> i \<and> i < width img * height img \<longrightarrow>
              (px' ! nat (i * channels img), px' ! (nat (i * channels img) + 1),
               px' ! (nat (i * channels img) + 2)) = col"
      and pf: "\<forall>p. (\<forall>i. 0 \<le> i \<and> i < width img * height img \<longrightarrow>
                   p < nat (i * channels img) \<or> nat (i * channels img) + 2 < p)
              \<longrightarrow> px' ! p = px ! p"
    by blast
  have same: "px' ! p = px ! p" for p
  proof (cases "\<forall>i. 0 \<le> i \<and> i < width img * height img \<longrightarrow>
                   p < nat (i * channels img) \<or> nat (i * channels img) + 2 < p")
    case True
    then show ?thesis using pf by blast
  next
    case False
    then obtain i where i: "0 \<le> i" "i < width img * height img"
        and lo: "nat (i * channels img) \<le> p" and hi: "p \<le> nat (i * channels img) + 2"
      by (auto simp add: not_less)
    have n: "(px' ! nat (i * channels img), px' ! (nat (i * channels img) + 1),
              px' ! (nat (i * channels img) + 2)) = col"
      using pv i by simp
    note o = u0 [OF i]
    have "(px' ! nat (i * channels img), px' ! (nat (i * channels img) + 1),
           px' ! (nat (i * channels img) + 2))
        = (px ! nat (i * channels img), px ! (nat (i * channels img) + 1),
           px ! (nat (i * channels img) + 2))"
      by (simp only: n o)
    then have e3: "px' ! nat (i * channels img) = px ! nat (i * channels img)"
        "px' ! (nat (i * channels img) + 1) = px ! (nat (i * channels img) + 1)"
        "px' ! (nat (i * channels img) + 2) = px ! (nat (i * channels img) + 2)"
      by simp_all
    consider "p = nat (i * channels img)" | "p = nat (i * channels img) + 1"
      | "p = nat (i * channels img) + 2"
      using lo hi by linarith
    then show ?thesis
    proof cases
      case 1 then show ?thesis by (simp only: e3)
    next
      case 2 then show ?thesis by (simp only: e3)
    next
      case 3 then show ?thesis by (simp only: e3)
    qed
  qed
  have eq: "px' = px" using pl same by (intro nth_equalityI) simp_all
  have "img\<lparr>data := Some px'\<rparr> = img" using f(1) eq by simp
  then show ?thesis using run by simp
qed

lemma box_blur_run_any:
  assumes v: "valid_image img px" and c: "3 \<le> channels img"
      and r: "0 < radius"
      and ow: "width img - 1 + radius \<le> INT_MAX" and oh: "height img - 1 + radius \<le> INT_MAX"
  shows "\<exists>px'. apply_box_blur a img radius = Inr (img\<lparr>data := Some px'\<rparr>) \<and>
           length px' = length px"
proof (cases a)
  case None
  have "data img = Some px" using v by (simp add: valid_image_def)
  then have "apply_box_blur None img radius = Inr (img\<lparr>data := Some px\<rparr>)"
    by (simp add: apply_box_blur_def malloc_def Let_def)
  then show ?thesis using None by blast
next
  case (Some junk)
  then show ?thesis using box_blur_run [OF assms] by simp
qed

lemma box_blur_uniform_any:
  assumes v: "valid_image img px" and c: "3 \<le> channels img"
      and r: "0 < radius"
      and ow: "width img - 1 + radius \<le> INT_MAX" and oh: "height img - 1 + radius \<le> INT_MAX"
      and sw: "255 * min (width img) (2 * radius + 1) \<le> INT_MAX"
      and sh: "255 * min (height img) (2 * radius + 1) \<le> INT_MAX"
      and u: "uniform_colour px (width img * height img) (channels img) col"
  shows "apply_box_blur a img radius = Inr img"
proof (cases a)
  case None
  have "data img = Some px" using v by (simp add: valid_image_def)
  then have "apply_box_blur None img radius = Inr img"
    by (simp add: apply_box_blur_def malloc_def Let_def)
  then show ?thesis using None by simp
next
  case (Some junk)
  then show ?thesis using box_blur_uniform [OF assms] by simp
qed


subsection \<open>A window whose sums leave the range of \<open>int\<close>\<close>

lemma window_loop_uniform_wrap:
  assumes "\<And>k. k \<in> set ks \<Longrightarrow> load3 buf (index_of k) = Inr (a, b, c)"
  shows "for_loop ks (window_step buf index_of) (wrap32 s0, wrap32 s1, wrap32 s2, wrap32 n)
            = Inr (wrap32 (s0 + uint a * int (length ks)), wrap32 (s1 + uint b * int (length ks)),
                   wrap32 (s2 + uint c * int (length ks)), wrap32 (n + int (length ks)))"
  using assms
proof (induction ks arbitrary: s0 s1 s2 n)
  case Nil
  then show ?case by simp
next
  case (Cons k ks)
  have ld: "load3 buf (index_of k) = Inr (a, b, c)" using Cons.prems(1) by simp
  have e: "uint v * int (length (k # ks)) = uint v + uint v * int (length ks)" for v :: byte
    by (simp add: algebra_simps)
  have step: "window_step buf index_of k (wrap32 s0, wrap32 s1, wrap32 s2, wrap32 n) =
      Inr (wrap32 (s0 + uint a), wrap32 (s1 + uint b), wrap32 (s2 + uint c), wrap32 (n + 1))"
    by (simp add: window_step_def ld add32_def wrap32_idem_add)
  have "for_loop ks (window_step buf index_of)
          (wrap32 (s0 + uint a), wrap32 (s1 + uint b), wrap32 (s2 + uint c), wrap32 (n + 1))
      = Inr (wrap32 (s0 + uint a + uint a * int (length ks)),
             wrap32 (s1 + uint b + uint b * int (length ks)),
             wrap32 (s2 + uint c + uint c * int (length ks)), wrap32 (n + 1 + int (length ks)))"
    using Cons.prems by (intro Cons.IH) simp_all
  then have "for_loop (k # ks) (window_step buf index_of) (wrap32 s0, wrap32 s1, wrap32 s2, wrap32 n)
      = Inr (wrap32 (s0 + uint a + uint a * int (length ks)),
             wrap32 (s1 + uint b + uint b * int (length ks)),
             wrap32 (s2 + uint c + uint c * int (length ks)), wrap32 (n + 1 + int (length ks)))"
    by (simp only: for_loop.simps step bindf_Inr)
  then show ?case unfolding e by (simp add: add.assoc)
qed

lemma wrap32_0: "wrap32 0 = 0"
  by (simp add: wrap32_def)

lemma valid_wide_row: "valid_image wide_row (replicate 25264515 255)"
  by (simp add: valid_image_def wide_row_def INT_MAX_def)

lemma wide_row_hpass:
  assumes x: "0 \<le> x" "x < 8421505"
  shows "hpass_pixel 8421505 3 8421504 (replicate 25264515 255) 0 x tmp
           = store3 tmp ((0 * 8421505 + x) * 3) (2, 2, 2)"
proof -
  let ?w = "8421505 :: int" and ?r = "8421504 :: int"
  let ?src = "replicate 25264515 255 :: byte list"
  have o: "?w - 1 + ?r \<le> INT_MAX" by (simp add: INT_MAX_def)
  have r: "0 < ?r" by simp
  note b = window_bounds [OF x r o]
  have lo: "win_min x ?r = 0" using b(1) x by simp
  have hi: "win_max ?w x ?r = 8421504" using b(2) x by simp
  have y: "(0::int) \<le> 0" "(0::int) < 1" by simp_all
  have c: "(3::int) \<le> 3" by simp
  have m: "?w * 1 * 3 \<le> INT_MAX" by (simp add: INT_MAX_def)
  have len: "int (length ?src) = ?w * 1 * 3" by simp
  have keys: "load3 ?src (pix_index ?w 3 0 k) = Inr (255, 255, 255)"
    if "k \<in> set [0 .. 8421504]" for k
  proof -
    have kr: "0 \<le> k" "k < ?w" using that by simp_all
    note bl = block_load [OF kr y c m len]
    have "nat ((0 * ?w + k) * 3) + 2 < 25264515" using bl(3) by simp
    then show ?thesis by (simp only: bl(1) load3_Inr [OF bl(2,3)]) simp
  qed
  have "for_loop [0 .. 8421504] (window_step ?src (\<lambda>xx. pix_index ?w 3 0 xx))
          (wrap32 0, wrap32 0, wrap32 0, wrap32 0)
      = Inr (wrap32 (0 + uint (255 :: byte) * int (length [0 .. 8421504 :: int])),
             wrap32 (0 + uint (255 :: byte) * int (length [0 .. 8421504 :: int])),
             wrap32 (0 + uint (255 :: byte) * int (length [0 .. 8421504 :: int])),
             wrap32 (0 + int (length [0 .. 8421504 :: int])))"
    by (rule window_loop_uniform_wrap [OF keys])
  then have acc: "hpass_window ?w 3 ?r ?src 0 x
      = Inr (- 2147483521, - 2147483521, - 2147483521, 8421505)"
    by (simp add: hpass_window_def lo hi wrap32_0 wrap32_def)
  have mean: "window_mean (- 2147483521, - 2147483521, - 2147483521, 8421505) = Inr (2, 2, 2)"
    by (simp add: window_mean_def mean_byte_def tdiv_def)
  show ?thesis
    by (simp only: hpass_pixel_def acc bindf_Inr mean block_load(1) [OF x y c m len])
qed

lemma wide_row_vpass:
  assumes x: "0 \<le> x" "x < 8421505" and y: "0 \<le> y" "y < (1::int)"
      and len: "int (length tmp) = 8421505 * 1 * 3"
      and u: "\<And>i. 0 \<le> i \<Longrightarrow> i < 8421505 * 1 \<Longrightarrow>
                 (tmp ! nat (i * 3), tmp ! (nat (i * 3) + 1), tmp ! (nat (i * 3) + 2)) = (2, 2, 2)"
  shows "vpass_pixel 8421505 1 3 8421504 tmp y x s = store3 s ((y * 8421505 + x) * 3) (2, 2, 2)"
  by (rule vpass_pixel_uniform [OF x y _ _ len _ _ _ u]) (simp_all add: INT_MAX_def)

lemma uniform_wide_row:
  "uniform_colour (replicate 25264515 255) (8421505 * 1) 3 (255, 255, 255)"
proof -
  have "(replicate 25264515 (255 :: byte) ! nat (i * 3),
         replicate 25264515 (255 :: byte) ! (nat (i * 3) + 1),
         replicate 25264515 (255 :: byte) ! (nat (i * 3) + 2)) = (255, 255, 255)"
    if "i \<in> set [0 .. 8421505 * 1 - 1]" for i :: int
  proof -
    have "0 \<le> i" "i < 8421505" using that by simp_all
    then have "nat (i * 3) + 2 < 25264515" by linarith
    then show ?thesis by simp
  qed
  then show ?thesis unfolding uniform_colour_def list_all_iff by blast
qed

lemma box_blur_sum_overflow:
  "apply_box_blur (Some (\<lambda>_. 0)) wide_row 8421504
     = Inr (wide_row\<lparr>data := Some (replicate 25264515 2)\<rparr>)"
proof -
  have c: "3 \<le> channels wide_row" by (simp add: wide_row_def)
  have r: "(0::int) < 8421504" by simp
  have b1: "hpass_pixel (width wide_row) (channels wide_row) 8421504 (replicate 25264515 255) y x s
              = store3 s ((y * width wide_row + x) * channels wide_row) (2, 2, 2)"
    if "0 \<le> x" "x < width wide_row" "0 \<le> y" "y < height wide_row" for x y s
  proof -
    have "y = 0" using that by (simp add: wide_row_def)
    then show ?thesis using wide_row_hpass [of x s] that by (simp add: wide_row_def)
  qed
  have b2: "vpass_pixel (width wide_row) (height wide_row) (channels wide_row) 8421504 tmp y x s
              = store3 s ((y * width wide_row + x) * channels wide_row) (2, 2, 2)"
    if "0 \<le> x" "x < width wide_row" "0 \<le> y" "y < height wide_row"
      and "int (length tmp) = width wide_row * height wide_row * channels wide_row"
      and "\<And>i. 0 \<le> i \<Longrightarrow> i < width wide_row * height wide_row \<Longrightarrow>
             (tmp ! nat (i * channels wide_row), tmp ! (nat (i * channels wide_row) + 1),
              tmp ! (nat (i * channels wide_row) + 2)) = (2, 2, 2)"
    for tmp x y s
    using wide_row_vpass [of x y tmp s] that by (simp add: wide_row_def)
  from box_blur_two_pass [OF valid_wide_row c r b1 b2, of "\<lambda>_. 0"]
  obtain px' where run: "apply_box_blur (Some (\<lambda>_. 0)) wide_row 8421504
        = Inr (wide_row\<lparr>data := Some px'\<rparr>)"
      and pl: "length px' = length (replicate 25264515 (255 :: byte))"
      and pv: "\<forall>i. 0 \<le> i \<and> i < width wide_row * height wide_row \<longrightarrow>
              (px' ! nat (i * channels wide_row), px' ! (nat (i * channels wide_row) + 1),
               px' ! (nat (i * channels wide_row) + 2)) = (2, 2, 2)"
    by blast
  have len: "length px' = 25264515" using pl by simp
  have blocks: "px' ! (q * 3) = 2 \<and> px' ! (q * 3 + 1) = 2 \<and> px' ! (q * 3 + 2) = 2"
    if "q < 8421505" for q
  proof -
    have "nat (int q * 3) = q * 3" by (simp add: nat_mult_distrib)
    then show ?thesis using pv [rule_format, of "int q"] that by (simp add: wide_row_def)
  qed
  have "px' ! p = 2" if "p < 25264515" for p
  proof -
    have q: "p div 3 < 8421505" using that by simp
    have e: "p = p div 3 * 3 + p mod 3" by simp
    have "p mod 3 < 3" by simp
    then consider "p mod 3 = 0" | "p mod 3 = 1" | "p mod 3 = 2" by linarith
    then show ?thesis
    proof cases
      case 1 then have "p = p div 3 * 3" using e by simp
      then show ?thesis using blocks [OF q] by metis
    next
      case 2 then have "p = p div 3 * 3 + 1" using e by simp
      then show ?thesis using blocks [OF q] by metis
    next
      case 3 then have "p = p div 3 * 3 + 2" using e by simp
      then show ?thesis using blocks [OF q] by metis
    qed
  qed
  then have "px' = replicate 25264515 2" using len by (intro nth_equalityI) simp_all
  then show ?thesis using run by simp
qed

subsection \<open>The windows and the uniform image\<close>

text \<open>
  Claim C10, as amended. For every image with at least three channels whose buffer
  holds \<open>width * height * channels\<close> bytes, and every radius \<open>> 0\<close> such that
  \<open>(width - 1) + radius\<close> and \<open>(height - 1) + radius\<close> fit an \<open>int\<close>: for every pixel
  \<open>(x, y)\<close> the window bounds computed by the code are \<open>max 0 (x - radius)\<close> and
  \<open>min (width - 1) (x + radius)\<close>, respectively \<open>max 0 (y - radius)\<close> and
  \<open>min (height - 1) (y + radius)\<close>, the window contains the centre, the inner loop
  of either pass over a buffer of the image's size ends with a count of at least 1,
  and \<open>apply_box_blur\<close> ends without a fault, so no division by zero occurs.
\<close>

theorem box_blur_window_nonempty:
  assumes "valid_image img px" and "3 \<le> channels img"
      and "0 < radius"
      and "width img - 1 + radius \<le> INT_MAX" and "height img - 1 + radius \<le> INT_MAX"
      and "0 \<le> x" and "x < width img" and "0 \<le> y" and "y < height img"
      and "int (length buf) = width img * height img * channels img"
  shows "win_min x radius = max 0 (x - radius) \<and>
         win_max (width img) x radius = min (width img - 1) (x + radius) \<and>
         win_min y radius = max 0 (y - radius) \<and>
         win_max (height img) y radius = min (height img - 1) (y + radius) \<and>
         win_min x radius \<le> x \<and> x \<le> win_max (width img) x radius \<and>
         win_min y radius \<le> y \<and> y \<le> win_max (height img) y radius \<and>
         (\<exists>t0 t1 t2 n. hpass_window (width img) (channels img) radius buf y x = Inr (t0, t1, t2, n)
            \<and> 1 \<le> n) \<and>
         (\<exists>t0 t1 t2 n. vpass_window (width img) (height img) (channels img) radius buf y x
              = Inr (t0, t1, t2, n) \<and> 1 \<le> n) \<and>
         (\<exists>px'. apply_box_blur a img radius = Inr (img\<lparr>data := Some px'\<rparr>) \<and>
            length px' = length px)"
proof -
  note f = valid_image_facts [OF assms(1,2)]
  note wx = window_bounds [OF assms(6,7,3,4)]
  note wy = window_bounds [OF assms(8,9,3,5)]
  note cx = window_contains_centre [OF assms(6,7,3,4)]
  note cy = window_contains_centre [OF assms(8,9,3,5)]
  note hp = hpass_pixel_store(1) [OF assms(6-9) assms(2) f(6) assms(10) assms(3,4)]
  note vp = vpass_pixel_store(1) [OF assms(6-9) assms(2) f(6) assms(10) assms(3,5)]
  note run = box_blur_run_any [OF assms(1-5), of a]
  show ?thesis
    using wx wy cx(2,3) cy(2,3) hp vp run by (intro conjI)
qed

theorem box_blur_window_nonempty_witness:
  "valid_image \<lparr>width = 3, height = 2, channels = 3,
       data = Some [1, 2, 3, 4, 5, 6, 7, 8, 9, 10, 11, 12, 13, 14, 15, 16, 17, 18]\<rparr>
     [1, 2, 3, 4, 5, 6, 7, 8, 9, 10, 11, 12, 13, 14, 15, 16, 17, 18] \<and>
   win_min 2 1 = 1 \<and> win_max 3 2 1 = 2 \<and> win_min 1 1 = 0 \<and> win_max 2 1 1 = 1 \<and>
   (\<exists>t0 t1 t2 n. hpass_window 3 3 1
        [1, 2, 3, 4, 5, 6, 7, 8, 9, 10, 11, 12, 13, 14, 15, 16, 17, 18] 1 2 = Inr (t0, t1, t2, n)
      \<and> 1 \<le> n) \<and>
   (\<exists>t0 t1 t2 n. vpass_window 3 2 3 1
        [1, 2, 3, 4, 5, 6, 7, 8, 9, 10, 11, 12, 13, 14, 15, 16, 17, 18] 1 2 = Inr (t0, t1, t2, n)
      \<and> 1 \<le> n) \<and>
   (\<exists>px'. apply_box_blur (Some (\<lambda>_. 0))
        \<lparr>width = 3, height = 2, channels = 3,
         data = Some [1, 2, 3, 4, 5, 6, 7, 8, 9, 10, 11, 12, 13, 14, 15, 16, 17, 18]\<rparr> 1
      = Inr (\<lparr>width = 3, height = 2, channels = 3,
         data = Some [1, 2, 3, 4, 5, 6, 7, 8, 9, 10, 11, 12, 13, 14, 15, 16, 17, 18]\<rparr>
           \<lparr>data := Some px'\<rparr>) \<and>
      length px' = length [1, 2, 3, 4, 5, 6, 7, 8, 9, 10, 11, 12, 13, 14, 15, 16, 17, 18 :: byte])"
proof -
  let ?px = "[1, 2, 3, 4, 5, 6, 7, 8, 9, 10, 11, 12, 13, 14, 15, 16, 17, 18] :: byte list"
  let ?img = "\<lparr>width = 3, height = 2, channels = 3, data = Some ?px\<rparr>"
  have v: "valid_image ?img ?px" by (simp add: valid_image_def INT_MAX_def)
  have t: "win_min 2 1 = max 0 (2 - 1) \<and>
         win_max (width ?img) 2 1 = min (width ?img - 1) (2 + 1) \<and>
         win_min 1 1 = max 0 (1 - 1) \<and>
         win_max (height ?img) 1 1 = min (height ?img - 1) (1 + 1) \<and>
         win_min 2 1 \<le> 2 \<and> 2 \<le> win_max (width ?img) 2 1 \<and>
         win_min 1 1 \<le> 1 \<and> 1 \<le> win_max (height ?img) 1 1 \<and>
         (\<exists>t0 t1 t2 n. hpass_window (width ?img) (channels ?img) 1 ?px 1 2 = Inr (t0, t1, t2, n)
            \<and> 1 \<le> n) \<and>
         (\<exists>t0 t1 t2 n. vpass_window (width ?img) (height ?img) (channels ?img) 1 ?px 1 2
              = Inr (t0, t1, t2, n) \<and> 1 \<le> n) \<and>
         (\<exists>px'. apply_box_blur (Some (\<lambda>_. 0)) ?img 1 = Inr (?img\<lparr>data := Some px'\<rparr>) \<and>
            length px' = length ?px)"
    by (rule box_blur_window_nonempty [OF v]) (simp_all add: INT_MAX_def)
  show ?thesis using v t by simp
qed

text \<open>
  The claim as first worded takes every radius \<open>> 0\<close>. With the radius \<open>INT_MAX\<close> on an
  image two pixels wide, \<open>x + radius\<close> wraps around at \<open>x = 1\<close>: the upper bound of the
  window is the least \<open>int\<close>, the window \<open>[0, INT_MIN]\<close> is empty and does not contain
  1, the count stays 0 and the division traps.
\<close>

theorem box_blur_window_empty_counterexample:
  "(2147483647 :: int) = INT_MAX \<and>
   win_min 1 2147483647 = 0 \<and> win_max 2 1 2147483647 = - 2147483648 \<and>
   hpass_window 2 3 2147483647 [1, 2, 3, 4, 5, 6] 0 1 = Inr (0, 0, 0, 0) \<and>
   apply_box_blur (Some (\<lambda>_. 0))
     \<lparr>width = 2, height = 1, channels = 3, data = Some [1, 2, 3, 4, 5, 6]\<rparr> 2147483647
     = Inl DivByZero"
  by code_simp

text \<open>
  Claim C6, as amended. For every image with at least three channels whose buffer
  holds \<open>width * height * channels\<close> bytes and whose pixels all carry one colour, and
  every radius \<open>> 0\<close> such that \<open>(width - 1) + radius\<close> and \<open>(height - 1) + radius\<close> fit an
  \<open>int\<close> and 255 times the largest window (\<open>min width (2 * radius + 1)\<close> pixels in a
  row, \<open>min height (2 * radius + 1)\<close> in a column) fits an \<open>int\<close>, \<open>apply_box_blur\<close> ends
  without a fault and leaves the image as it was, byte for byte, whatever the
  allocator answers.
\<close>

theorem box_blur_uniform_unchanged:
  assumes "valid_image img px" and "3 \<le> channels img"
      and "0 < radius"
      and "width img - 1 + radius \<le> INT_MAX" and "height img - 1 + radius \<le> INT_MAX"
      and "255 * min (width img) (2 * radius + 1) \<le> INT_MAX"
      and "255 * min (height img) (2 * radius + 1) \<le> INT_MAX"
      and "uniform_colour px (width img * height img) (channels img) col"
  shows "apply_box_blur a img radius = Inr img"
  using assms by (rule box_blur_uniform_any)

theorem box_blur_uniform_unchanged_witness:
  "valid_image \<lparr>width = 2, height = 2, channels = 4,
       data = Some [9, 8, 7, 1, 9, 8, 7, 2, 9, 8, 7, 3, 9, 8, 7, 4]\<rparr>
     [9, 8, 7, 1, 9, 8, 7, 2, 9, 8, 7, 3, 9, 8, 7, 4] \<and>
   uniform_colour [9, 8, 7, 1, 9, 8, 7, 2, 9, 8, 7, 3, 9, 8, 7, 4] 4 4 (9, 8, 7) \<and>
   apply_box_blur (Some (\<lambda>_. 0))
     \<lparr>width = 2, height = 2, channels = 4,
       data = Some [9, 8, 7, 1, 9, 8, 7, 2, 9, 8, 7, 3, 9, 8, 7, 4]\<rparr> 5
   = Inr \<lparr>width = 2, height = 2, channels = 4,
       data = Some [9, 8, 7, 1, 9, 8, 7, 2, 9, 8, 7, 3, 9, 8, 7, 4]\<rparr>"
proof -
  let ?px = "[9, 8, 7, 1, 9, 8, 7, 2, 9, 8, 7, 3, 9, 8, 7, 4] :: byte list"
  let ?img = "\<lparr>width = 2, height = 2, channels = 4, data = Some ?px\<rparr>"
  have v: "valid_image ?img ?px" by (simp add: valid_image_def INT_MAX_def)
  have u: "uniform_colour ?px 4 4 (9, 8, 7)" by code_simp
  have "apply_box_blur (Some (\<lambda>_. 0)) ?img 5 = Inr ?img"
    by (rule box_blur_uniform_unchanged [OF v, where col = "(9, 8, 7)"])
       (simp_all add: INT_MAX_def u)
  then show ?thesis using v u by simp
qed

text \<open>
  The claim as first worded takes every radius \<open>> 0\<close> and every size. On a row of
  8421505 white pixels with the radius 8421504 every window is the whole row, each
  sum is \<open>255 * 8421505\<close>, which wraps around to \<open>- 2147483521\<close>, and every pixel ends
  with the colour \<open>(2, 2, 2)\<close>.
\<close>

theorem box_blur_uniform_counterexample:
  "uniform_colour (replicate 25264515 255) (8421505 * 1) 3 (255, 255, 255) \<and>
   apply_box_blur (Some (\<lambda>_. 0)) wide_row 8421504
     = Inr (wide_row\<lparr>data := Some (replicate 25264515 2)\<rparr>)"
  by (rule conjI [OF uniform_wide_row box_blur_sum_overflow])

text \<open>
  The bound on the radius is needed as well: with the radius \<open>INT_MAX\<close> the image of
  two pixels of one colour is not returned, because the window of the second pixel is
  empty and the division traps.
\<close>

lemma box_blur_uniform_radius_overflow:
  "uniform_colour [9, 9, 9, 9, 9, 9] (2 * 1) 3 (9, 9, 9) \<and>
   apply_box_blur (Some (\<lambda>_. 0))
     \<lparr>width = 2, height = 1, channels = 3, data = Some [9, 9, 9, 9, 9, 9]\<rparr> 2147483647
     = Inl DivByZero"
  by code_simp

end
